theory Spec2Isabelle
  imports Main "HOL-Library.Word"
begin

section \<open>Common data\<close>

type_synonym byte = "8 word"

text \<open>
  The error values the three source files return. \<open>io_EOF\<close>, \<open>errClosedListener\<close> and
  \<open>errInvalidNamedCurve\<close> are the package-level error variables; \<open>external_error\<close>
  stands for an error handed back by a library outside the repository (the random source,
  the operating system's socket), identified by a number.
\<close>

datatype error = io_EOF | errClosedListener | errInvalidNamedCurve | external_error nat

text \<open>
  Go's built-in \<open>copy(dst, src)\<close>: copies \<open>min (len dst) (len src)\<close> elements to the
  front of \<open>dst\<close> and returns that number; the rest of \<open>dst\<close> keeps its contents.
\<close>

definition go_copy :: "'a list \<Rightarrow> 'a list \<Rightarrow> nat \<times> 'a list" where
  "go_copy dst src =
     (let n = min (length dst) (length src) in (n, take n src @ drop n dst))"

section \<open>The application-data payload (\<open>applicationData\<close>)\<close>

record applicationData =
  data :: "byte list"

text \<open>
  \<open>Marshal\<close> and \<open>Unmarshal\<close> have a pointer receiver: the model takes the value of
  the receiver and, for \<open>Unmarshal\<close>, returns the updated one beside the error result
  (\<open>None\<close> is Go's \<open>nil\<close> error). \<open>append([]byte{}, xs...)\<close> is \<open>[] @ xs\<close>.
\<close>

definition Marshal :: "applicationData \<Rightarrow> int \<Rightarrow> byte list list \<times> error option" where
  "Marshal a fragmentLen = (let raw = [] @ data a in ([raw], None))"

definition Unmarshal :: "applicationData \<Rightarrow> byte list \<Rightarrow> applicationData \<times> error option" where
  "Unmarshal a d = (a\<lparr>data := [] @ d\<rparr>, None)"

section \<open>Named curves and key-pair generation\<close>

type_synonym namedCurve = "16 word"

record namedCurveKeypair =
  curve :: namedCurve
  publicKey :: "byte list"
  privateKey :: "byte list"

definition namedCurveP256 :: namedCurve where "namedCurveP256 = 0x0017"
definition namedCurveP384 :: namedCurve where "namedCurveP384 = 0x0018"
definition namedCurveP521 :: namedCurve where "namedCurveP521 = 0x0019"
definition namedCurveX25519 :: namedCurve where "namedCurveX25519 = 0x001d"

definition namedCurves :: "namedCurve \<rightharpoonup> bool" where
  "namedCurves =
     [namedCurveX25519 \<mapsto> True, namedCurveP256 \<mapsto> True,
      namedCurveP384 \<mapsto> True, namedCurveP521 \<mapsto> True]"

text \<open>
  The cryptographic libraries are outside the repository; \<open>generateKeypair\<close> takes what
  they answer as a parameter. \<open>rand_Read n\<close> is \<open>rand.Read\<close> on an \<open>n\<close>-byte slice:
  an error, or the bytes the slice holds afterwards. \<open>elliptic_GenerateKey\<close> answers an
  error or the private key and the point \<open>(x, y)\<close>.
\<close>

datatype elliptic_Curve = P256 | P384 | P521

record crypto =
  rand_Read :: "nat \<Rightarrow> error + byte list"
  curve25519_ScalarBaseMult :: "byte list \<Rightarrow> byte list"
  elliptic_GenerateKey :: "elliptic_Curve \<Rightarrow> error + (byte list \<times> int \<times> int)"
  elliptic_Marshal :: "elliptic_Curve \<Rightarrow> int \<Rightarrow> int \<Rightarrow> byte list"

definition generateKeypair :: "crypto \<Rightarrow> namedCurve \<Rightarrow> error + namedCurveKeypair" where
  "generateKeypair cr c =
     (if c = namedCurveX25519 then
        (case rand_Read cr 32 of
           Inl err \<Rightarrow> Inl err
         | Inr tmp \<Rightarrow>
             (let private = snd (go_copy (replicate 32 0) tmp);
                  public = curve25519_ScalarBaseMult cr private
              in Inr \<lparr>curve = namedCurveX25519, publicKey = public, privateKey = private\<rparr>))
      else if c = namedCurveP256 then
        (case elliptic_GenerateKey cr P256 of
           Inl err \<Rightarrow> Inl err
         | Inr (priv, x, y) \<Rightarrow>
             Inr \<lparr>curve = namedCurveP256, publicKey = elliptic_Marshal cr P256 x y,
                  privateKey = priv\<rparr>)
      else if c = namedCurveP384 then
        (case elliptic_GenerateKey cr P384 of
           Inl err \<Rightarrow> Inl err
         | Inr (priv, x, y) \<Rightarrow>
             Inr \<lparr>curve = namedCurveP256, publicKey = elliptic_Marshal cr P384 x y,
                  privateKey = priv\<rparr>)
      else if c = namedCurveP521 then
        (case elliptic_GenerateKey cr P521 of
           Inl err \<Rightarrow> Inl err
         | Inr (priv, x, y) \<Rightarrow>
             Inr \<lparr>curve = namedCurveP256, publicKey = elliptic_Marshal cr P521 x y,
                  privateKey = priv\<rparr>)
      else Inl errInvalidNamedCurve)"

text \<open>
  Two concrete library behaviours used to run \<open>generateKeypair\<close>: one whose random source
  answers fixed bytes, one whose random source fails.
\<close>

definition fixed_crypto :: crypto where
  "fixed_crypto =
     \<lparr>rand_Read = (\<lambda>n. Inr (replicate n 7)),
      curve25519_ScalarBaseMult = (\<lambda>priv. map (\<lambda>b. b + 1) priv),
      elliptic_GenerateKey = (\<lambda>cv. Inr ([1, 2, 3], 4, 5)),
      elliptic_Marshal = (\<lambda>cv x y. [4, word_of_int x, word_of_int y])\<rparr>"

definition failing_crypto :: crypto where
  "failing_crypto =
     \<lparr>rand_Read = (\<lambda>n. Inl (external_error 5)),
      curve25519_ScalarBaseMult = (\<lambda>priv. priv),
      elliptic_GenerateKey = (\<lambda>cv. Inl (external_error 5)),
      elliptic_Marshal = (\<lambda>cv x y. [])\<rparr>"

section \<open>The datagram connection multiplexer (package \<open>udp\<close>)\<close>

subsection \<open>Constants and data\<close>

definition receiveMTU :: nat where "receiveMTU = 8192"

text \<open>Durations and the clock are in nanoseconds, as \<open>time.Duration\<close> is.\<close>

definition closeRecheckDuration :: int where "closeRecheckDuration = 100 * 1000000"

text \<open>The error of the \<open>net\<close> package for an operation on a closed socket.\<close>

definition net_ErrClosed :: error where "net_ErrClosed = external_error 0"

type_synonym addr = string      \<comment> \<open>\<open>raddr.String()\<close>, the registry key\<close>
type_synonym conn_ref = nat     \<comment> \<open>a \<open>*Conn\<close>: the index of the object in the heap\<close>
type_synonym tid = nat          \<comment> \<open>a goroutine of the application\<close>

datatype goroutine = ReadLoop | Caller tid

text \<open>
  The \<open>Conn\<close> struct. There is one listener, so the back-reference \<open>listener\<close> is a
  flag: \<open>True\<close> while the pointer is set, \<open>False\<close> for \<open>nil\<close>. \<open>c_doneCh\<close> says
  that the channel \<open>doneCh\<close> has been closed, \<open>c_doneOnce\<close> that \<open>doneOnce\<close> has
  run, \<open>c_lock\<close> who holds \<open>lock\<close>. The unbuffered channels \<open>readCh\<close> and
  \<open>sizeCh\<close> hold no data: their state is the set of goroutines parked on them, which
  is read off the program counters below.
\<close>

record Conn =
  listener :: bool
  rAddr :: addr
  c_lock :: "tid option"
  c_doneCh :: bool
  c_doneOnce :: bool

text \<open>
  What a call of the application returns: \<open>Accept\<close> a connection or an error, the two
  \<open>Close\<close> methods an error or \<open>nil\<close>, \<open>Read\<close> and \<open>Write\<close> a byte count, an
  error or \<open>nil\<close>, together with the contents of the caller's buffer when the call
  returns.
\<close>

datatype result =
    Accept_result "error + conn_ref"
  | Close_result "error option"
  | IO_result nat "error option" "byte list"

datatype call =
    Call_Accept
  | Call_Listener_Close int
  | Call_Read conn_ref "byte list"
  | Call_Write conn_ref "byte list"
  | Call_Conn_Close conn_ref

text \<open>
  Where a goroutine of the application stands. A goroutine blocked on a lock stays at the
  \<open>_Lock\<close> point; one blocked in a \<open>select\<close> with no ready case is \<open>_parked\<close>
  until the other side completes the communication for it. \<open>closeConn_select\<close> carries
  the instants at which \<open>timeoutTimer\<close> and the current \<open>time.After\<close> fire.
\<close>

datatype pc =
    Idle
  | Returned result
  | Panicked
  | Accept_select
  | Accept_parked
  | Listener_Close_Lock int
  | closeConn_select int int
  | Read_select conn_ref "byte list"
  | Read_parked conn_ref "byte list"
  | Write_Lock conn_ref "byte list"
  | Write_WriteTo conn_ref "byte list"
  | Conn_Close_Lock conn_ref
  | Conn_Close_listener_Lock conn_ref

text \<open>
  Where the goroutine running \<open>readLoop\<close> stands; the number is \<open>n\<close>, the count of
  bytes of the current datagram in \<open>buf\<close>.
\<close>

datatype loop_pc =
    RL_ReadFrom
  | RL_getConn addr nat
  | RL_acceptCh_send conn_ref nat
  | RL_select conn_ref nat
  | RL_parked conn_ref nat
  | RL_return

text \<open>
  The state: the socket \<open>pConn\<close> (open or closed, the datagrams waiting to be read, the
  datagrams sent, the error its \<open>Close\<close> will answer), the fields of the \<open>Listener\<close>,
  the \<open>Conn\<close> objects allocated so far, the goroutines and the clock. The registry
  \<open>conns\<close> is an association list from address to connection.
\<close>

record udp_state =
  pConn_open :: bool
  pConn_inbox :: "(addr \<times> byte list) list"
  pConn_sent :: "(byte list \<times> addr) list"
  pConn_Close_result :: "error option"
  l_lock :: "goroutine option"
  accepting :: bool
  l_doneCh :: bool
  l_doneOnce :: bool
  conns :: "(addr \<times> conn_ref) list"
  heap :: "Conn list"
  readLoop :: loop_pc
  buf :: "byte list"
  threads :: "pc list"
  now :: int

datatype action =
    Spawn                        \<comment> \<open>the application starts a goroutine\<close>
  | Call tid call                \<comment> \<open>an idle goroutine calls a method\<close>
  | Run tid bool                 \<comment> \<open>a goroutine takes its next step\<close>
  | Loop bool                    \<comment> \<open>the \<open>readLoop\<close> goroutine takes its next step\<close>
  | Datagram addr "byte list"    \<comment> \<open>the network delivers a datagram to the socket\<close>
  | WriteTo_answer tid nat "error option"
                                 \<comment> \<open>the socket answers the \<open>WriteTo\<close> a goroutine is in\<close>
  | Tick nat                     \<comment> \<open>time passes\<close>

subsection \<open>Helpers\<close>

fun first_index :: "('a \<Rightarrow> bool) \<Rightarrow> 'a list \<Rightarrow> nat option" where
  "first_index P [] = None"
| "first_index P (x # xs) = (if P x then Some 0 else map_option Suc (first_index P xs))"

fun parked_reader :: "conn_ref \<Rightarrow> pc \<Rightarrow> bool" where
  "parked_reader c (Read_parked c' p) = (c' = c)"
| "parked_reader c _ = False"

fun parked_acceptor :: "pc \<Rightarrow> bool" where
  "parked_acceptor Accept_parked = True"
| "parked_acceptor _ = False"

fun read_buffer :: "pc \<Rightarrow> byte list" where
  "read_buffer (Read_parked c p) = p"
| "read_buffer (Read_select c p) = p"
| "read_buffer _ = []"

text \<open>Closing a channel completes the \<open>select\<close> of every goroutine parked on it.\<close>

fun wake_reader :: "conn_ref \<Rightarrow> pc \<Rightarrow> pc" where
  "wake_reader c (Read_parked c' p) =
     (if c' = c then Returned (IO_result 0 (Some io_EOF) p) else Read_parked c' p)"
| "wake_reader c q = q"

fun wake_acceptor :: "pc \<Rightarrow> pc" where
  "wake_acceptor Accept_parked = Returned (Accept_result (Inl errClosedListener))"
| "wake_acceptor q = q"

fun wake_readLoop :: "conn_ref \<Rightarrow> loop_pc \<Rightarrow> loop_pc" where
  "wake_readLoop c (RL_parked c' n) = (if c' = c then RL_ReadFrom else RL_parked c' n)"
| "wake_readLoop c q = q"

definition set_pc :: "udp_state \<Rightarrow> tid \<Rightarrow> pc \<Rightarrow> udp_state" where
  "set_pc s t q = s\<lparr>threads := (threads s)[t := q]\<rparr>"

definition delete_key :: "addr \<Rightarrow> (addr \<times> conn_ref) list \<Rightarrow> (addr \<times> conn_ref) list" where
  "delete_key k m = filter (\<lambda>e. fst e \<noteq> k) m"

subsection \<open>The socket\<close>

text \<open>
  \<open>net.UDPConn\<close> is outside the repository. What \<open>WriteTo\<close> answers on the open
  socket, a byte count and an error or \<open>nil\<close>, is decided by the operating system and
  is a parameter \<open>answer\<close> here (a datagram that is too long, an unreachable network and
  so on give an error); the datagram has left for its address when the answer carries no
  error. On a closed socket \<open>WriteTo\<close> answers the error of the \<open>net\<close> package.
  \<open>Close\<close> closes the socket and answers what the operating system answers.
\<close>

definition pConn_WriteTo ::
  "udp_state \<Rightarrow> byte list \<Rightarrow> addr \<Rightarrow> nat \<times> error option
     \<Rightarrow> (nat \<times> error option) \<times> udp_state" where
  "pConn_WriteTo s p a answer =
     (if \<not> pConn_open s then ((0, Some net_ErrClosed), s)
      else case answer of
             (n, None) \<Rightarrow> ((n, None), s\<lparr>pConn_sent := pConn_sent s @ [(p, a)]\<rparr>)
           | (n, Some err) \<Rightarrow> ((n, Some err), s))"

definition pConn_Close :: "udp_state \<Rightarrow> error option \<times> udp_state" where
  "pConn_Close s = (pConn_Close_result s, s\<lparr>pConn_open := False\<rparr>)"

subsection \<open>\<open>Listen\<close>, \<open>newConn\<close>\<close>

text \<open>
  \<open>Listen\<close>: the first parameter is the error of \<open>net.ListenUDP\<close>, if any, the second
  the error the socket's \<open>Close\<close> will answer. \<open>new_Listener\<close> is the state after the
  composite literal and \<open>go l.readLoop()\<close>: the literal sets \<open>pConn\<close>, \<open>acceptCh\<close>,
  \<open>conns\<close> and \<open>doneCh\<close>; \<open>accepting\<close> is not mentioned and has Go's zero value
  \<open>false\<close>; the loop allocates \<open>buf\<close>. No goroutine of the application exists yet.
\<close>

definition new_Listener :: "error option \<Rightarrow> udp_state" where
  "new_Listener close_err =
     \<lparr>pConn_open = True, pConn_inbox = [], pConn_sent = [],
      pConn_Close_result = close_err,
      l_lock = None, accepting = False, l_doneCh = False, l_doneOnce = False,
      conns = [], heap = [],
      readLoop = RL_ReadFrom, buf = replicate receiveMTU 0,
      threads = [], now = 0\<rparr>"

definition Listen :: "error option \<Rightarrow> error option \<Rightarrow> error + udp_state" where
  "Listen ListenUDP_err close_err =
     (case ListenUDP_err of
        Some err \<Rightarrow> Inl err
      | None \<Rightarrow> Inr (new_Listener close_err))"

definition newConn :: "addr \<Rightarrow> Conn" where
  "newConn a = \<lparr>listener = True, rAddr = a, c_lock = None, c_doneCh = False,
                c_doneOnce = False\<rparr>"

subsection \<open>\<open>readLoop\<close> and \<open>getConn\<close>\<close>

text \<open>
  \<open>l.pConn.ReadFrom(buf)\<close>: an error once the socket is closed, which ends the loop;
  otherwise it blocks until a datagram is there, copies it to the front of \<open>buf\<close> and
  answers the number of bytes copied and the source address.
\<close>

definition readLoop_ReadFrom :: "udp_state \<Rightarrow> udp_state" where
  "readLoop_ReadFrom s =
     (if \<not> pConn_open s then s\<lparr>readLoop := RL_return\<rparr>
      else case pConn_inbox s of
             [] \<Rightarrow> s
           | (raddr, payload) # rest \<Rightarrow>
               (let (n, buf') = go_copy (buf s) payload
                in s\<lparr>pConn_inbox := rest, buf := buf', readLoop := RL_getConn raddr n\<rparr>))"

text \<open>
  \<open>getConn\<close>, from \<open>l.lock.Lock()\<close> to the point where it returns or blocks. With the
  lock taken by another goroutine it does not move. For a known address it returns the
  registered connection. For a new one it returns \<open>errClosedListener\<close> unless
  \<open>accepting\<close> (and \<open>readLoop\<close> goes on to the next datagram); otherwise it allocates
  the connection, registers it and sends it on \<open>acceptCh\<close>: to a goroutine parked in
  \<open>Accept\<close> if there is one, else it blocks in the send, still holding the lock.
\<close>

definition getConn :: "udp_state \<Rightarrow> addr \<Rightarrow> nat \<Rightarrow> udp_state" where
  "getConn s raddr n =
     (if l_lock s \<noteq> None then s
      else case map_of (conns s) raddr of
             Some conn \<Rightarrow> s\<lparr>readLoop := RL_select conn n\<rparr>
           | None \<Rightarrow>
               if \<not> accepting s then s\<lparr>readLoop := RL_ReadFrom\<rparr>
               else
                 (let conn = length (heap s);
                      s1 = s\<lparr>heap := heap s @ [newConn raddr],
                             conns := conns s @ [(raddr, conn)]\<rparr>
                  in case first_index parked_acceptor (threads s) of
                       Some t \<Rightarrow>
                         s1\<lparr>threads := (threads s)[t := Returned (Accept_result (Inr conn))],
                            readLoop := RL_select conn n\<rparr>
                     | None \<Rightarrow>
                         s1\<lparr>l_lock := Some ReadLoop, readLoop := RL_acceptCh_send conn n\<rparr>))"

text \<open>
  The hand-over of a datagram to a reader: the reader's buffer \<open>p\<close> goes through
  \<open>readCh\<close>, \<open>readLoop\<close> runs \<open>n = copy(cBuf, buf[:n])\<close> and sends \<open>n\<close> on
  \<open>sizeCh\<close>, and \<open>Read\<close> returns \<open>n, nil\<close>. Only these two goroutines touch the two
  channels between the first and the second communication, and neither is in a \<open>select\<close>
  there, so the exchange is one step.
\<close>

definition deliver :: "udp_state \<Rightarrow> tid \<Rightarrow> byte list \<Rightarrow> nat \<Rightarrow> udp_state" where
  "deliver s t p n =
     (let (m, p') = go_copy p (take n (buf s))
      in s\<lparr>threads := (threads s)[t := Returned (IO_result m None p')],
           readLoop := RL_ReadFrom\<rparr>)"

text \<open>
  The \<open>select\<close> of \<open>readLoop\<close>: receive a buffer from \<open>conn.readCh\<close> (ready when a
  reader is parked on it) or find \<open>conn.doneCh\<close> closed. When both are ready Go chooses
  at random: \<open>choice\<close> says whether \<open>doneCh\<close> wins. When neither is, the loop parks.
\<close>

definition readLoop_select :: "udp_state \<Rightarrow> conn_ref \<Rightarrow> nat \<Rightarrow> bool \<Rightarrow> udp_state" where
  "readLoop_select s conn n choice =
     (let closed = c_doneCh (heap s ! conn)
      in case first_index (parked_reader conn) (threads s) of
           Some t \<Rightarrow>
             if closed \<and> choice then s\<lparr>readLoop := RL_ReadFrom\<rparr>
             else deliver s t (read_buffer (threads s ! t)) n
         | None \<Rightarrow>
             if closed then s\<lparr>readLoop := RL_ReadFrom\<rparr>
             else s\<lparr>readLoop := RL_parked conn n\<rparr>)"

definition readLoop_step :: "udp_state \<Rightarrow> bool \<Rightarrow> udp_state" where
  "readLoop_step s choice =
     (case readLoop s of
        RL_ReadFrom \<Rightarrow> readLoop_ReadFrom s
      | RL_getConn raddr n \<Rightarrow> getConn s raddr n
      | RL_select conn n \<Rightarrow> readLoop_select s conn n choice
      | _ \<Rightarrow> s)"

subsection \<open>\<open>Accept\<close>\<close>

text \<open>
  The \<open>select\<close> of \<open>Accept\<close>: receive from \<open>acceptCh\<close> (ready when \<open>getConn\<close> is
  blocked in its send; the receive lets \<open>getConn\<close> return, which releases the lock) or
  find \<open>l.doneCh\<close> closed. \<open>choice\<close> says whether \<open>doneCh\<close> wins when both are ready.
\<close>

definition Accept :: "udp_state \<Rightarrow> tid \<Rightarrow> bool \<Rightarrow> udp_state" where
  "Accept s t choice =
     (case readLoop s of
        RL_acceptCh_send conn n \<Rightarrow>
          if l_doneCh s \<and> choice
          then set_pc s t (Returned (Accept_result (Inl errClosedListener)))
          else s\<lparr>threads := (threads s)[t := Returned (Accept_result (Inr conn))],
                 readLoop := RL_select conn n, l_lock := None\<rparr>
      | _ \<Rightarrow>
          if l_doneCh s then set_pc s t (Returned (Accept_result (Inl errClosedListener)))
          else set_pc s t Accept_parked)"

subsection \<open>\<open>Listener.Close\<close> and \<open>closeConn\<close>\<close>

text \<open>
  The end of \<open>Listener.Close\<close>: \<open>closeConn\<close> returns \<open>l.pConn.Close()\<close>, the function
  given to \<open>doneOnce.Do\<close> ends (the once is done), the deferred \<open>Unlock\<close> runs and
  \<open>Close\<close> returns the error.
\<close>

definition closeConn_return :: "udp_state \<Rightarrow> tid \<Rightarrow> udp_state" where
  "closeConn_return s t =
     (let (err, s1) = pConn_Close s
      in s1\<lparr>l_doneOnce := True, l_lock := None,
            threads := (threads s1)[t := Returned (Close_result err)]\<rparr>)"

text \<open>
  \<open>Listener.Close\<close> from \<open>l.lock.Lock()\<close>: blocked while the lock is taken. If the once
  is done it unlocks and returns \<open>nil\<close>. Otherwise it closes \<open>doneCh\<close> (every parked
  \<open>Accept\<close> returns \<open>errClosedListener\<close>) and enters \<open>closeConn\<close>: with an empty
  registry the socket is closed at once; otherwise the timer is started and the goroutine
  waits in the \<open>select\<close> of the loop, holding the lock.
\<close>

definition Listener_Close :: "udp_state \<Rightarrow> tid \<Rightarrow> int \<Rightarrow> udp_state" where
  "Listener_Close s t timeout =
     (if l_lock s \<noteq> None then s
      else if l_doneOnce s then set_pc s t (Returned (Close_result None))
      else
        (let s1 = s\<lparr>l_doneCh := True, threads := map wake_acceptor (threads s)\<rparr>
         in if conns s1 = [] then closeConn_return s1 t
            else s1\<lparr>l_lock := Some (Caller t),
                    threads := (threads s1)[t := closeConn_select (now s + timeout)
                                                   (now s + closeRecheckDuration)]\<rparr>))"

text \<open>
  One round of the loop of \<open>closeConn\<close>. \<open>timeoutTimer.C\<close> is ready from \<open>deadline\<close>
  on, \<open>time.After(closeRecheckDuration)\<close> from \<open>recheck\<close> on; \<open>choice\<close> says whether
  the timer wins when both are ready. After a recheck that finds the registry non-empty the
  loop comes back to the \<open>select\<close> with a new \<open>time.After\<close>.
\<close>

definition closeConn :: "udp_state \<Rightarrow> tid \<Rightarrow> int \<Rightarrow> int \<Rightarrow> bool \<Rightarrow> udp_state" where
  "closeConn s t deadline recheck choice =
     (let timer_ready = (deadline \<le> now s); after_ready = (recheck \<le> now s)
      in if timer_ready \<and> (\<not> after_ready \<or> choice) then closeConn_return s t
         else if after_ready then
           (if conns s = [] then closeConn_return s t
            else set_pc s t (closeConn_select deadline (now s + closeRecheckDuration)))
         else s)"

subsection \<open>\<open>Conn.Read\<close>, \<open>Conn.Write\<close>, \<open>Conn.Close\<close>\<close>

text \<open>
  The \<open>select\<close> of \<open>Read\<close>: send the buffer on \<open>readCh\<close> (ready when \<open>readLoop\<close> is
  parked in its \<open>select\<close> for this connection) or find \<open>doneCh\<close> closed and return
  \<open>0, io.EOF\<close>. \<open>choice\<close> says whether \<open>doneCh\<close> wins when both are ready.
\<close>

definition Conn_Read :: "udp_state \<Rightarrow> tid \<Rightarrow> conn_ref \<Rightarrow> byte list \<Rightarrow> bool \<Rightarrow> udp_state" where
  "Conn_Read s t c p choice =
     (let closed = c_doneCh (heap s ! c);
          receiver = (case readLoop s of
                        RL_parked c' n \<Rightarrow> if c' = c then Some n else None
                      | _ \<Rightarrow> None)
      in case receiver of
           Some n \<Rightarrow>
             if closed \<and> choice then set_pc s t (Returned (IO_result 0 (Some io_EOF) p))
             else deliver s t p n
         | None \<Rightarrow>
             if closed then set_pc s t (Returned (IO_result 0 (Some io_EOF) p))
             else set_pc s t (Read_parked c p))"

text \<open>
  \<open>Write\<close>: under \<open>c.lock\<close> it reads \<open>c.listener\<close>; \<open>nil\<close> gives \<open>0, io.EOF\<close>.
  Otherwise, the lock released, it calls \<open>l.pConn.WriteTo(p, c.rAddr)\<close> and stays in
  that call until the socket answers; \<open>Write\<close> returns the answer as it is.
\<close>

definition Conn_Write :: "udp_state \<Rightarrow> tid \<Rightarrow> conn_ref \<Rightarrow> byte list \<Rightarrow> udp_state" where
  "Conn_Write s t c p =
     (if c_lock (heap s ! c) \<noteq> None then s
      else if \<not> listener (heap s ! c) then set_pc s t (Returned (IO_result 0 (Some io_EOF) p))
      else set_pc s t (Write_WriteTo c p))"

definition Conn_Write_WriteTo ::
  "udp_state \<Rightarrow> tid \<Rightarrow> conn_ref \<Rightarrow> byte list \<Rightarrow> nat \<times> error option \<Rightarrow> udp_state" where
  "Conn_Write_WriteTo s t c p answer =
     (let ((n, err), s1) = pConn_WriteTo s p (rAddr (heap s ! c)) answer
      in set_pc s1 t (Returned (IO_result n err p)))"

text \<open>
  \<open>Conn.Close\<close> from \<open>c.lock.Lock()\<close>: blocked while the lock is taken. If the once is
  done it unlocks and returns \<open>nil\<close>. Otherwise it closes \<open>doneCh\<close>, which completes
  the \<open>select\<close> of every reader parked on this connection and that of \<open>readLoop\<close> if it
  is parked on it, and goes on to \<open>c.listener.lock.Lock()\<close>, holding \<open>c.lock\<close>.
\<close>

definition Conn_Close :: "udp_state \<Rightarrow> tid \<Rightarrow> conn_ref \<Rightarrow> udp_state" where
  "Conn_Close s t c =
     (if c_lock (heap s ! c) \<noteq> None then s
      else if c_doneOnce (heap s ! c) then set_pc s t (Returned (Close_result None))
      else s\<lparr>heap := (heap s)[c := (heap s ! c)\<lparr>c_lock := Some t, c_doneCh := True\<rparr>],
             threads := (map (wake_reader c) (threads s))[t := Conn_Close_listener_Lock c],
             readLoop := wake_readLoop c (readLoop s)\<rparr>)"

text \<open>
  The rest of the function given to \<open>doneOnce.Do\<close>: \<open>c.listener.lock.Lock()\<close> (a nil
  dereference if \<open>c.listener\<close> is \<open>nil\<close>; blocked while the listener's lock is taken),
  the \<open>delete\<close> from the registry, \<open>Unlock\<close>, \<open>c.listener = nil\<close>; then the once is
  done, \<open>c.lock\<close> is released and \<open>Close\<close> returns \<open>nil\<close>.
\<close>

definition Conn_Close_listener :: "udp_state \<Rightarrow> tid \<Rightarrow> conn_ref \<Rightarrow> udp_state" where
  "Conn_Close_listener s t c =
     (if \<not> listener (heap s ! c) then set_pc s t Panicked
      else if l_lock s \<noteq> None then s
      else s\<lparr>conns := delete_key (rAddr (heap s ! c)) (conns s),
             heap := (heap s)[c := (heap s ! c)\<lparr>listener := False, c_doneOnce := True,
                                                c_lock := None\<rparr>],
             threads := (threads s)[t := Returned (Close_result None)]\<rparr>)"

subsection \<open>The steps of the system\<close>

fun entry :: "call \<Rightarrow> pc" where
  "entry Call_Accept = Accept_select"
| "entry (Call_Listener_Close timeout) = Listener_Close_Lock timeout"
| "entry (Call_Read c p) = Read_select c p"
| "entry (Call_Write c p) = Write_Lock c p"
| "entry (Call_Conn_Close c) = Conn_Close_Lock c"

fun call_conn :: "call \<Rightarrow> conn_ref option" where
  "call_conn (Call_Read c p) = Some c"
| "call_conn (Call_Write c p) = Some c"
| "call_conn (Call_Conn_Close c) = Some c"
| "call_conn _ = None"

fun callable :: "pc \<Rightarrow> bool" where
  "callable Idle = True"
| "callable (Returned r) = True"
| "callable _ = False"

text \<open>
  A goroutine that is idle, or whose last call has returned, calls a method; a method of a
  connection is called on a connection that exists.
\<close>

definition call_step :: "udp_state \<Rightarrow> tid \<Rightarrow> call \<Rightarrow> udp_state" where
  "call_step s t c =
     (if t < length (threads s) \<and> callable (threads s ! t)
         \<and> (case call_conn c of None \<Rightarrow> True | Some r \<Rightarrow> r < length (heap s))
      then set_pc s t (entry c) else s)"

definition thread_step :: "udp_state \<Rightarrow> tid \<Rightarrow> bool \<Rightarrow> udp_state" where
  "thread_step s t choice =
     (case threads s ! t of
        Accept_select \<Rightarrow> Accept s t choice
      | Listener_Close_Lock timeout \<Rightarrow> Listener_Close s t timeout
      | closeConn_select deadline recheck \<Rightarrow> closeConn s t deadline recheck choice
      | Read_select c p \<Rightarrow> Conn_Read s t c p choice
      | Write_Lock c p \<Rightarrow> Conn_Write s t c p
      | Conn_Close_Lock c \<Rightarrow> Conn_Close s t c
      | Conn_Close_listener_Lock c \<Rightarrow> Conn_Close_listener s t c
      | _ \<Rightarrow> s)"

text \<open>
  A goroutine inside \<open>l.pConn.WriteTo\<close> goes on when the socket answers; on any other
  goroutine the answer has no effect.
\<close>

definition WriteTo_return :: "udp_state \<Rightarrow> tid \<Rightarrow> nat \<times> error option \<Rightarrow> udp_state" where
  "WriteTo_return s t answer =
     (case threads s ! t of
        Write_WriteTo c p \<Rightarrow> Conn_Write_WriteTo s t c p answer
      | _ \<Rightarrow> s)"

definition step :: "action \<Rightarrow> udp_state \<Rightarrow> udp_state" where
  "step a s =
     (case a of
        Spawn \<Rightarrow> s\<lparr>threads := threads s @ [Idle]\<rparr>
      | Call t c \<Rightarrow> call_step s t c
      | Run t choice \<Rightarrow> (if t < length (threads s) then thread_step s t choice else s)
      | Loop choice \<Rightarrow> readLoop_step s choice
      | Datagram raddr payload \<Rightarrow>
          (if pConn_open s then s\<lparr>pConn_inbox := pConn_inbox s @ [(raddr, payload)]\<rparr>
           else s)
      | WriteTo_answer t n err \<Rightarrow>
          (if t < length (threads s) then WriteTo_return s t (n, err) else s)
      | Tick d \<Rightarrow> s\<lparr>now := now s + int d\<rparr>)"

text \<open>A run of the system under a schedule, the list of actions in the order they happen.\<close>

fun run :: "action list \<Rightarrow> udp_state \<Rightarrow> udp_state" where
  "run [] s = s"
| "run (a # as) s = run as (step a s)"

subsection \<open>Invariants of the system\<close>

fun pc_conn :: "pc \<Rightarrow> conn_ref option" where
  "pc_conn (Read_select c p) = Some c"
| "pc_conn (Read_parked c p) = Some c"
| "pc_conn (Write_Lock c p) = Some c"
| "pc_conn (Write_WriteTo c p) = Some c"
| "pc_conn (Conn_Close_Lock c) = Some c"
| "pc_conn (Conn_Close_listener_Lock c) = Some c"
| "pc_conn _ = None"

fun loop_conn :: "loop_pc \<Rightarrow> conn_ref option" where
  "loop_conn (RL_acceptCh_send c n) = Some c"
| "loop_conn (RL_select c n) = Some c"
| "loop_conn (RL_parked c n) = Some c"
| "loop_conn _ = None"

fun loop_n :: "loop_pc \<Rightarrow> nat" where
  "loop_n (RL_getConn a n) = n"
| "loop_n (RL_acceptCh_send c n) = n"
| "loop_n (RL_select c n) = n"
| "loop_n (RL_parked c n) = n"
| "loop_n _ = 0"

text \<open>Every connection a goroutine or the registry refers to has been allocated.\<close>

definition inv_refs :: "udp_state \<Rightarrow> bool" where
  "inv_refs s \<longleftrightarrow>
     (\<forall>q \<in> set (threads s). \<forall>c. pc_conn q = Some c \<longrightarrow> c < length (heap s))
     \<and> (\<forall>c. loop_conn (readLoop s) = Some c \<longrightarrow> c < length (heap s))
     \<and> (\<forall>e \<in> set (conns s). snd e < length (heap s))"

text \<open>
  A connection: the once is done exactly when the back-reference is \<open>nil\<close>, and then
  \<open>doneCh\<close> is closed; while \<open>c.lock\<close> is held, \<open>doneCh\<close> is closed and the once is
  not yet done (only \<open>Close\<close> keeps the lock across steps).
\<close>

definition conn_inv :: "Conn \<Rightarrow> bool" where
  "conn_inv k \<longleftrightarrow>
     (c_doneOnce k \<longleftrightarrow> \<not> listener k)
     \<and> (c_doneOnce k \<longrightarrow> c_doneCh k)
     \<and> (c_lock k \<noteq> None \<longrightarrow> c_doneCh k \<and> \<not> c_doneOnce k)"

definition inv_conns :: "udp_state \<Rightarrow> bool" where
  "inv_conns s \<longleftrightarrow> (\<forall>k \<in> set (heap s). conn_inv k)"

text \<open>A goroutine inside the once of \<open>Conn.Close\<close> holds the lock of its connection.\<close>

definition inv_close :: "udp_state \<Rightarrow> bool" where
  "inv_close s \<longleftrightarrow>
     (\<forall>t < length (threads s). \<forall>c. threads s ! t = Conn_Close_listener_Lock c
         \<longrightarrow> c_lock (heap s ! c) = Some t)"

text \<open>
  The listener's lock: \<open>getConn\<close> blocked in its send holds it, a goroutine in the loop of
  \<open>closeConn\<close> holds it, and it is only held across steps with a non-empty registry.
\<close>

definition inv_l_lock :: "udp_state \<Rightarrow> bool" where
  "inv_l_lock s \<longleftrightarrow>
     (\<forall>c n. readLoop s = RL_acceptCh_send c n \<longrightarrow> l_lock s = Some ReadLoop)
     \<and> (\<forall>t < length (threads s). \<forall>d r. threads s ! t = closeConn_select d r
           \<longrightarrow> l_lock s = Some (Caller t))
     \<and> (l_lock s \<noteq> None \<longrightarrow> conns s \<noteq> [])"

text \<open>\<open>readLoop\<close> is never parked on a connection whose \<open>doneCh\<close> is closed.\<close>

definition inv_parked :: "udp_state \<Rightarrow> bool" where
  "inv_parked s \<longleftrightarrow> (\<forall>c n. readLoop s = RL_parked c n \<longrightarrow> \<not> c_doneCh (heap s ! c))"

text \<open>\<open>buf\<close> has \<open>receiveMTU\<close> bytes and the datagram in it at most as many.\<close>

definition inv_buf :: "udp_state \<Rightarrow> bool" where
  "inv_buf s \<longleftrightarrow> length (buf s) = receiveMTU \<and> loop_n (readLoop s) \<le> receiveMTU"

text \<open>
  The registry: a connection is registered under its own remote address, and a registered
  connection has not been through its once.
\<close>

definition inv_registry :: "udp_state \<Rightarrow> bool" where
  "inv_registry s \<longleftrightarrow>
     (\<forall>e \<in> set (conns s). rAddr (heap s ! snd e) = fst e \<and> \<not> c_doneOnce (heap s ! snd e))"

definition inv :: "udp_state \<Rightarrow> bool" where
  "inv s \<longleftrightarrow> inv_refs s \<and> inv_conns s \<and> inv_close s \<and> inv_l_lock s \<and> inv_parked s
              \<and> inv_buf s \<and> inv_registry s"

text \<open>
  The order in which a connection evolves: its address is fixed, a closed \<open>doneCh\<close> stays
  closed and a once that is done stays done.
\<close>

definition conn_le :: "Conn \<Rightarrow> Conn \<Rightarrow> bool" where
  "conn_le k k' \<longleftrightarrow>
     rAddr k' = rAddr k \<and> (c_doneCh k \<longrightarrow> c_doneCh k') \<and> (c_doneOnce k \<longrightarrow> c_doneOnce k')"

subsection \<open>A listener that never accepts\<close>

text \<open>
  The states in which \<open>accepting\<close> is false and no connection has ever been created:
  the registry and the heap are empty, nobody holds or waits for a connection, and no
  \<open>Accept\<close> has returned one.
\<close>

definition never_accepting :: "udp_state \<Rightarrow> bool" where
  "never_accepting s \<longleftrightarrow>
     \<not> accepting s \<and> conns s = [] \<and> heap s = [] \<and> loop_conn (readLoop s) = None
     \<and> (\<forall>q \<in> set (threads s). pc_conn q = None \<and> (\<forall>c. q \<noteq> Returned (Accept_result (Inr c))))"

text \<open>
  A run used below: a goroutine is started and calls \<open>Accept\<close>, which parks; a datagram
  \<open>hello\<close> arrives from a new address; \<open>readLoop\<close> reads it and calls \<open>getConn\<close>.
\<close>

definition hello :: "byte list" where
  "hello = [104, 101, 108, 108, 111]"

definition first_datagram :: "action list" where
  "first_datagram =
     [Spawn, Call 0 Call_Accept, Run 0 False, Datagram ''10.0.0.1:5000'' hello,
      Loop False, Loop False]"

subsection \<open>States with a connection\<close>

text \<open>
  \<open>getConn\<close> creates connections only while \<open>accepting\<close> holds. To run the methods of
  \<open>Conn\<close> and the grace period of \<open>Listener.Close\<close> on concrete states, the runs below
  start from the listener as \<open>Listen\<close> builds it, but with \<open>accepting\<close> set.
  \<open>one_peer\<close>: two goroutines are started, the first calls \<open>Accept\<close> and parks, a
  datagram \<open>hello\<close> arrives from \<open>10.0.0.1:5000\<close>, \<open>readLoop\<close> reads it, and
  \<open>getConn\<close> creates connection \<open>0\<close>, registers it and hands it to the \<open>Accept\<close>.
\<close>

definition accepting_Listener :: udp_state where
  "accepting_Listener = (new_Listener None)\<lparr>accepting := True\<rparr>"

definition one_peer :: "action list" where
  "one_peer =
     [Spawn, Spawn, Call 0 Call_Accept, Run 0 False, Datagram ''10.0.0.1:5000'' hello,
      Loop False, Loop False]"

definition one_peer_state :: udp_state where
  "one_peer_state = run one_peer accepting_Listener"

text \<open>
  \<open>close_first\<close>: on a listener with an empty registry whose socket answers an error on
  \<open>Close\<close>, a goroutine calls \<open>Listener.Close\<close> with a grace period of one second and
  runs it; \<open>close_again\<close>: it then calls \<open>Listener.Close\<close> a second time.
\<close>

definition close_first :: "action list" where
  "close_first = [Spawn, Call 0 (Call_Listener_Close 1000000000)]"

definition close_again :: "action list" where
  "close_again = close_first @ [Run 0 False, Call 0 (Call_Listener_Close 1000000000)]"

text \<open>
  \<open>closing_peer\<close>: after \<open>one_peer\<close>, \<open>readLoop\<close> parks in its \<open>select\<close> (nobody
  reads), and the second goroutine calls \<open>Close\<close> on the connection.
  \<open>read_after_close\<close>: that \<open>Close\<close> finishes, another datagram arrives from the same
  address and is read by \<open>readLoop\<close> (\<open>getConn\<close> creates a new connection \<open>1\<close> for
  it), and the first goroutine calls \<open>Read\<close> on the closed connection \<open>0\<close> with a
  three-byte buffer.
\<close>

definition closing_peer :: "action list" where
  "closing_peer = one_peer @ [Loop False, Call 1 (Call_Conn_Close 0)]"

definition read_after_close :: "action list" where
  "read_after_close =
     [Run 1 False, Datagram ''10.0.0.1:5000'' hello, Loop False, Loop False,
      Call 0 (Call_Read 0 [1, 2, 3])]"

text \<open>
  \<open>close_peer_again\<close>: after \<open>closing_peer\<close>, the \<open>Close\<close> of the second goroutine
  runs to its end, and the first goroutine calls \<open>Close\<close> on the same connection.
\<close>

definition close_peer_again :: "action list" where
  "close_peer_again = [Run 1 False, Run 1 False, Call 0 (Call_Conn_Close 0)]"

text \<open>
  \<open>writing_peer\<close>: after \<open>one_peer\<close>, the second goroutine calls \<open>Write\<close> with
  \<open>world\<close> on the open connection. \<open>writing_too_much\<close>: it calls \<open>Write\<close> with
  65508 bytes, one more than a UDP datagram over IPv4 carries, and reaches \<open>WriteTo\<close>;
  the operating system answers such a \<open>WriteTo\<close> with \<open>message_too_long\<close>.
  \<open>write_after_close\<close>: \<open>Write\<close> with \<open>world\<close> once the connection has been closed.
\<close>

definition world :: "byte list" where
  "world = [119, 111, 114, 108, 100]"

definition message_too_long :: error where
  "message_too_long = external_error 90"

definition writing_peer :: "action list" where
  "writing_peer = one_peer @ [Call 1 (Call_Write 0 world)]"

definition writing_too_much :: "action list" where
  "writing_too_much = one_peer @ [Call 1 (Call_Write 0 (replicate 65508 0)), Run 1 False]"

definition write_after_close :: "action list" where
  "write_after_close = closing_peer @ close_peer_again @ [Call 1 (Call_Write 0 world)]"

text \<open>
  \<open>reading_peer\<close>: after \<open>one_peer\<close>, the second goroutine calls \<open>Read\<close> with a
  three-byte buffer and parks, while \<open>readLoop\<close> is about to enter its \<open>select\<close> with
  the five bytes of \<open>hello\<close>. \<open>big_datagram\<close>: \<open>readLoop\<close> then hands the datagram
  over, the goroutine calls \<open>Read\<close> again, and a datagram of 9000 bytes arrives.
\<close>

definition reading_peer :: "action list" where
  "reading_peer = one_peer @ [Call 1 (Call_Read 0 [0, 0, 0]), Run 1 False]"

definition big_datagram :: "action list" where
  "big_datagram =
     reading_peer @ [Loop False, Call 1 (Call_Read 0 [0, 0, 0]),
                     Datagram ''10.0.0.1:5000'' (replicate 9000 7)]"



section \<open>Properties of the application-data payload\<close>

text \<open>
  C8. The application-data payload is a transparent byte carrier: for every byte sequence
  \<open>d\<close>, \<open>Unmarshal\<close> succeeds (no error) and stores \<open>d\<close>; for every \<open>fragmentLen\<close>,
  \<open>Marshal\<close> returns exactly one fragment, equal to the stored bytes, with no error; so
  \<open>Marshal\<close> after \<open>Unmarshal\<close> gives back the input unchanged.
\<close>

theorem applicationData_transparent:
  "snd (Unmarshal a d) = None
   \<and> data (fst (Unmarshal a d)) = d
   \<and> Marshal a fragmentLen = ([data a], None)
   \<and> Marshal (fst (Unmarshal a d)) fragmentLen = ([d], None)"
  by (simp add: Marshal_def Unmarshal_def)

section \<open>Properties of key-pair generation\<close>

lemma namedCurves_dom:
  "dom namedCurves = {namedCurveX25519, namedCurveP256, namedCurveP384, namedCurveP521}"
  by (auto simp: namedCurves_def)

lemma namedCurve_constants_distinct:
  "namedCurveX25519 \<noteq> namedCurveP256" "namedCurveX25519 \<noteq> namedCurveP384"
  "namedCurveX25519 \<noteq> namedCurveP521" "namedCurveP256 \<noteq> namedCurveP384"
  "namedCurveP256 \<noteq> namedCurveP521" "namedCurveP384 \<noteq> namedCurveP521"
  "namedCurveP256 \<noteq> namedCurveX25519" "namedCurveP384 \<noteq> namedCurveX25519"
  "namedCurveP521 \<noteq> namedCurveX25519" "namedCurveP384 \<noteq> namedCurveP256"
  "namedCurveP521 \<noteq> namedCurveP256" "namedCurveP521 \<noteq> namedCurveP384"
  by (simp_all add: namedCurveX25519_def namedCurveP256_def namedCurveP384_def
      namedCurveP521_def)

lemma generateKeypair_X25519:
  "generateKeypair cr namedCurveX25519 =
     (case rand_Read cr 32 of
        Inl err \<Rightarrow> Inl err
      | Inr tmp \<Rightarrow>
          Inr \<lparr>curve = namedCurveX25519,
               publicKey = curve25519_ScalarBaseMult cr (snd (go_copy (replicate 32 0) tmp)),
               privateKey = snd (go_copy (replicate 32 0) tmp)\<rparr>)"
  by (simp add: generateKeypair_def Let_def split: sum.splits)

lemma generateKeypair_P256:
  "generateKeypair cr namedCurveP256 =
     (case elliptic_GenerateKey cr P256 of
        Inl err \<Rightarrow> Inl err
      | Inr (priv, x, y) \<Rightarrow>
          Inr \<lparr>curve = namedCurveP256, publicKey = elliptic_Marshal cr P256 x y,
               privateKey = priv\<rparr>)"
  by (simp add: generateKeypair_def namedCurve_constants_distinct)

lemma generateKeypair_P384:
  "generateKeypair cr namedCurveP384 =
     (case elliptic_GenerateKey cr P384 of
        Inl err \<Rightarrow> Inl err
      | Inr (priv, x, y) \<Rightarrow>
          Inr \<lparr>curve = namedCurveP256, publicKey = elliptic_Marshal cr P384 x y,
               privateKey = priv\<rparr>)"
  by (simp add: generateKeypair_def namedCurve_constants_distinct)

lemma generateKeypair_P521:
  "generateKeypair cr namedCurveP521 =
     (case elliptic_GenerateKey cr P521 of
        Inl err \<Rightarrow> Inl err
      | Inr (priv, x, y) \<Rightarrow>
          Inr \<lparr>curve = namedCurveP256, publicKey = elliptic_Marshal cr P521 x y,
               privateKey = priv\<rparr>)"
  by (simp add: generateKeypair_def namedCurve_constants_distinct)

lemma generateKeypair_other:
  "c \<notin> {namedCurveX25519, namedCurveP256, namedCurveP384, namedCurveP521}
   \<Longrightarrow> generateKeypair cr c = Inl errInvalidNamedCurve"
  by (simp add: generateKeypair_def)

text \<open>
  C7, as stated, fails: with a random source that fails, \<open>generateKeypair\<close> on the
  supported identifier X25519 returns that error and no key-pair.
\<close>

theorem generateKeypair_rand_failure_counterexample:
  "generateKeypair failing_crypto namedCurveX25519 = Inl (external_error 5)"
  by (simp add: generateKeypair_def failing_crypto_def)

text \<open>
  C7, amended. For each of the four named-curve identifiers (X25519, P-256, P-384, P-521)
  \<open>generateKeypair\<close> returns a key-pair when the random source it draws from succeeds,
  and returns the random source's error when it fails; for every other identifier it
  returns the error \<open>errInvalidNamedCurve\<close>.
\<close>

theorem generateKeypair_supported_or_error:
  "(c \<notin> {namedCurveX25519, namedCurveP256, namedCurveP384, namedCurveP521}
      \<longrightarrow> generateKeypair cr c = Inl errInvalidNamedCurve)
   \<and> (\<forall>e. rand_Read cr 32 = Inl e \<longrightarrow> generateKeypair cr namedCurveX25519 = Inl e)
   \<and> (\<forall>tmp. rand_Read cr 32 = Inr tmp \<longrightarrow> (\<exists>kp. generateKeypair cr namedCurveX25519 = Inr kp))
   \<and> (\<forall>e. elliptic_GenerateKey cr P256 = Inl e \<longrightarrow> generateKeypair cr namedCurveP256 = Inl e)
   \<and> (\<forall>k. elliptic_GenerateKey cr P256 = Inr k \<longrightarrow> (\<exists>kp. generateKeypair cr namedCurveP256 = Inr kp))
   \<and> (\<forall>e. elliptic_GenerateKey cr P384 = Inl e \<longrightarrow> generateKeypair cr namedCurveP384 = Inl e)
   \<and> (\<forall>k. elliptic_GenerateKey cr P384 = Inr k \<longrightarrow> (\<exists>kp. generateKeypair cr namedCurveP384 = Inr kp))
   \<and> (\<forall>e. elliptic_GenerateKey cr P521 = Inl e \<longrightarrow> generateKeypair cr namedCurveP521 = Inl e)
   \<and> (\<forall>k. elliptic_GenerateKey cr P521 = Inr k \<longrightarrow> (\<exists>kp. generateKeypair cr namedCurveP521 = Inr kp))"
proof -
  have "c \<notin> {namedCurveX25519, namedCurveP256, namedCurveP384, namedCurveP521}
      \<longrightarrow> generateKeypair cr c = Inl errInvalidNamedCurve"
    using generateKeypair_other by blast
  moreover have "\<forall>e. rand_Read cr 32 = Inl e \<longrightarrow> generateKeypair cr namedCurveX25519 = Inl e"
    by (simp add: generateKeypair_X25519)
  moreover have "\<forall>tmp. rand_Read cr 32 = Inr tmp \<longrightarrow> (\<exists>kp. generateKeypair cr namedCurveX25519 = Inr kp)"
    by (simp add: generateKeypair_X25519)
  moreover have "\<forall>e. elliptic_GenerateKey cr P256 = Inl e \<longrightarrow> generateKeypair cr namedCurveP256 = Inl e"
    by (simp add: generateKeypair_P256)
  moreover have "\<forall>k. elliptic_GenerateKey cr P256 = Inr k \<longrightarrow> (\<exists>kp. generateKeypair cr namedCurveP256 = Inr kp)"
    by (simp add: generateKeypair_P256 split: prod.splits)
  moreover have "\<forall>e. elliptic_GenerateKey cr P384 = Inl e \<longrightarrow> generateKeypair cr namedCurveP384 = Inl e"
    by (simp add: generateKeypair_P384)
  moreover have "\<forall>k. elliptic_GenerateKey cr P384 = Inr k \<longrightarrow> (\<exists>kp. generateKeypair cr namedCurveP384 = Inr kp)"
    by (simp add: generateKeypair_P384 split: prod.splits)
  moreover have "\<forall>e. elliptic_GenerateKey cr P521 = Inl e \<longrightarrow> generateKeypair cr namedCurveP521 = Inl e"
    by (simp add: generateKeypair_P521)
  moreover have "\<forall>k. elliptic_GenerateKey cr P521 = Inr k \<longrightarrow> (\<exists>kp. generateKeypair cr namedCurveP521 = Inr kp)"
    by (simp add: generateKeypair_P521 split: prod.splits)
  ultimately show ?thesis by blast
qed

theorem generateKeypair_supported_or_error_witness:
  "(0x0016 :: namedCurve) \<notin> {namedCurveX25519, namedCurveP256, namedCurveP384, namedCurveP521}
   \<and> generateKeypair fixed_crypto 0x0016 = Inl errInvalidNamedCurve
   \<and> (\<exists>tmp. rand_Read fixed_crypto 32 = Inr tmp)
   \<and> (\<exists>kp. generateKeypair fixed_crypto namedCurveX25519 = Inr kp)
   \<and> elliptic_GenerateKey fixed_crypto P256 = Inr ([1, 2, 3], 4, 5)
   \<and> (\<exists>kp. generateKeypair fixed_crypto namedCurveP256 = Inr kp)
   \<and> elliptic_GenerateKey fixed_crypto P384 = Inr ([1, 2, 3], 4, 5)
   \<and> (\<exists>kp. generateKeypair fixed_crypto namedCurveP384 = Inr kp)
   \<and> elliptic_GenerateKey fixed_crypto P521 = Inr ([1, 2, 3], 4, 5)
   \<and> (\<exists>kp. generateKeypair fixed_crypto namedCurveP521 = Inr kp)
   \<and> rand_Read failing_crypto 32 = Inl (external_error 5)
   \<and> generateKeypair failing_crypto namedCurveX25519 = Inl (external_error 5)
   \<and> elliptic_GenerateKey failing_crypto P384 = Inl (external_error 5)
   \<and> generateKeypair failing_crypto namedCurveP384 = Inl (external_error 5)"
proof -
  have a: "(0x0016 :: namedCurve) \<notin> {namedCurveX25519, namedCurveP256, namedCurveP384, namedCurveP521}"
    by (simp add: namedCurveX25519_def namedCurveP256_def namedCurveP384_def namedCurveP521_def)
  have r: "\<exists>tmp. rand_Read fixed_crypto 32 = Inr tmp"
    by (simp add: fixed_crypto_def)
  have g: "elliptic_GenerateKey fixed_crypto cv = Inr ([1, 2, 3], 4, 5)" for cv
    by (simp add: fixed_crypto_def)
  have rf: "rand_Read failing_crypto 32 = Inl (external_error 5)"
    by (simp add: failing_crypto_def)
  have gf: "elliptic_GenerateKey failing_crypto cv = Inl (external_error 5)" for cv
    by (simp add: failing_crypto_def)
  note ok = generateKeypair_supported_or_error [of "0x0016" fixed_crypto]
  note bad = generateKeypair_supported_or_error [of "0x0016" failing_crypto]
  have 1: "generateKeypair fixed_crypto 0x0016 = Inl errInvalidNamedCurve"
    using ok a by (elim conjE) (erule mp)
  have 2: "\<exists>kp. generateKeypair fixed_crypto namedCurveX25519 = Inr kp"
    using ok r by (elim conjE exE) (erule allE, erule mp)
  have 3: "\<exists>kp. generateKeypair fixed_crypto namedCurveP256 = Inr kp"
    and 4: "\<exists>kp. generateKeypair fixed_crypto namedCurveP384 = Inr kp"
    and 5: "\<exists>kp. generateKeypair fixed_crypto namedCurveP521 = Inr kp"
    using ok g by (elim conjE, fast)+
  have 6: "generateKeypair failing_crypto namedCurveX25519 = Inl (external_error 5)"
    and 7: "generateKeypair failing_crypto namedCurveP384 = Inl (external_error 5)"
    using bad rf gf by (elim conjE, fast)+
  show ?thesis
    using a r g rf gf 1 2 3 4 5 6 7 by (intro conjI)
qed

text \<open>
  C9. The claim is that the key-pair returned for a supported identifier \<open>c\<close> carries
  \<open>c\<close> in its curve field. The code writes \<open>namedCurveP256\<close> into the curve field in
  the P-384 and P-521 branches: every key-pair returned for P-384 or P-521 has the curve
  field 0x0017 (P-256), not the identifier asked for.
\<close>

theorem generateKeypair_curve_field_P384_P521:
  "(generateKeypair cr namedCurveP384 = Inr kp \<longrightarrow>
      curve kp = namedCurveP256 \<and> curve kp \<noteq> namedCurveP384)
   \<and> (generateKeypair cr namedCurveP521 = Inr kp' \<longrightarrow>
      curve kp' = namedCurveP256 \<and> curve kp' \<noteq> namedCurveP521)"
  by (auto simp: generateKeypair_P384 generateKeypair_P521 namedCurve_constants_distinct
      split: sum.splits prod.splits)

theorem generateKeypair_curve_field_P384_P521_witness:
  "generateKeypair fixed_crypto namedCurveP384
     = Inr \<lparr>curve = 0x0017, publicKey = [4, 4, 5], privateKey = [1, 2, 3]\<rparr>
   \<and> generateKeypair fixed_crypto namedCurveP521
     = Inr \<lparr>curve = 0x0017, publicKey = [4, 4, 5], privateKey = [1, 2, 3]\<rparr>
   \<and> curve \<lparr>curve = 0x0017, publicKey = [4, 4, 5], privateKey = [1, 2, 3 :: byte]\<rparr> = namedCurveP256
   \<and> namedCurveP256 \<noteq> namedCurveP384 \<and> namedCurveP256 \<noteq> namedCurveP521"
proof -
  have e1: "generateKeypair fixed_crypto namedCurveP384
     = Inr \<lparr>curve = 0x0017, publicKey = [4, 4, 5], privateKey = [1, 2, 3]\<rparr>"
    by (simp add: generateKeypair_P384 fixed_crypto_def namedCurveP256_def)
  have e2: "generateKeypair fixed_crypto namedCurveP521
     = Inr \<lparr>curve = 0x0017, publicKey = [4, 4, 5], privateKey = [1, 2, 3]\<rparr>"
    by (simp add: generateKeypair_P521 fixed_crypto_def namedCurveP256_def)
  have c: "curve \<lparr>curve = 0x0017, publicKey = [4, 4, 5], privateKey = [1, 2, 3 :: byte]\<rparr> = namedCurveP256"
    by (simp add: namedCurveP256_def)
  show ?thesis
    using generateKeypair_curve_field_P384_P521 [of fixed_crypto] e1 e2 c
    by (simp add: namedCurve_constants_distinct)
qed

section \<open>Properties of the multiplexer\<close>

subsection \<open>Helper facts\<close>

lemma first_index_Some:
  "first_index P xs = Some i \<Longrightarrow> i < length xs \<and> P (xs ! i)"
proof (induction xs arbitrary: i)
  case Nil
  then show ?case by simp
next
  case (Cons x xs)
  then show ?case by (auto split: if_splits)
qed

lemma first_index_None:
  "first_index P xs = None \<longleftrightarrow> (\<forall>x \<in> set xs. \<not> P x)"
  by (induction xs) auto

lemma parked_reader_iff: "parked_reader c q \<longleftrightarrow> (\<exists>p. q = Read_parked c p)"
  by (cases q) auto

lemma parked_acceptor_iff: "parked_acceptor q \<longleftrightarrow> q = Accept_parked"
  by (cases q) auto

lemma wake_reader_simps [simp]:
  "wake_reader c q = closeConn_select d r \<longleftrightarrow> q = closeConn_select d r"
  "wake_reader c q = Conn_Close_listener_Lock c' \<longleftrightarrow> q = Conn_Close_listener_Lock c'"
  "wake_reader c q = Read_select c' p \<longleftrightarrow> q = Read_select c' p"
  "wake_reader c q = Accept_parked \<longleftrightarrow> q = Accept_parked"
  by (cases q; auto)+

lemma wake_acceptor_simps [simp]:
  "wake_acceptor q = closeConn_select d r \<longleftrightarrow> q = closeConn_select d r"
  "wake_acceptor q = Conn_Close_listener_Lock c' \<longleftrightarrow> q = Conn_Close_listener_Lock c'"
  "wake_acceptor q = Read_select c' p \<longleftrightarrow> q = Read_select c' p"
  "wake_acceptor q = Read_parked c' p \<longleftrightarrow> q = Read_parked c' p"
  by (cases q; auto)+

lemma pc_conn_wake_reader: "pc_conn (wake_reader c q) = Some c' \<Longrightarrow> pc_conn q = Some c'"
  by (cases q) (auto split: if_splits)

lemma pc_conn_wake_acceptor [simp]: "pc_conn (wake_acceptor q) = pc_conn q"
  by (cases q) auto

lemma loop_conn_wake_readLoop: "loop_conn (wake_readLoop c q) = Some c' \<Longrightarrow> loop_conn q = Some c'"
  by (cases q) (auto split: if_splits)

lemma loop_n_wake_readLoop: "loop_n (wake_readLoop c q) \<le> loop_n q"
  by (cases q) auto

lemma wake_readLoop_simps [simp]:
  "wake_readLoop c q = RL_acceptCh_send c' n \<longleftrightarrow> q = RL_acceptCh_send c' n"
  "wake_readLoop c q = RL_parked c' n \<longleftrightarrow> q = RL_parked c' n \<and> c' \<noteq> c"
  by (cases q; auto)+

lemma in_set_update: "q \<in> set (xs[t := q']) \<Longrightarrow> q = q' \<or> q \<in> set xs"
  using set_update_subset_insert [of xs t q'] by auto

lemmas inv_defs = inv_def inv_refs_def inv_conns_def inv_close_def inv_l_lock_def
  inv_parked_def inv_buf_def inv_registry_def

subsection \<open>Every step preserves the invariants\<close>

lemma inv_Spawn: "inv s \<Longrightarrow> inv (s\<lparr>threads := threads s @ [Idle]\<rparr>)"
  by (auto simp: inv_defs nth_append)

lemma inv_Tick: "inv s \<Longrightarrow> inv (s\<lparr>now := now s + int d\<rparr>)"
  by (auto simp: inv_defs)

lemma inv_Datagram: "inv s \<Longrightarrow> inv (s\<lparr>pConn_inbox := pConn_inbox s @ [(raddr, payload)]\<rparr>)"
  by (auto simp: inv_defs)

lemma inv_call_step: "inv s \<Longrightarrow> inv (call_step s t c)"
  by (cases c) (auto simp: inv_defs call_step_def set_pc_def nth_list_update dest!: in_set_update)

lemma inv_Accept:
  "inv s \<Longrightarrow> t < length (threads s) \<Longrightarrow> threads s ! t = Accept_select \<Longrightarrow> inv (Accept s t ch)"
  by (auto simp: inv_defs Accept_def set_pc_def nth_list_update dest!: in_set_update split: loop_pc.splits)

lemma thread_conn_valid:
  "inv s \<Longrightarrow> t < length (threads s) \<Longrightarrow> pc_conn (threads s ! t) = Some c
   \<Longrightarrow> c < length (heap s)"
  unfolding inv_def inv_refs_def using nth_mem by blast

lemma heap_conn_inv: "inv s \<Longrightarrow> c < length (heap s) \<Longrightarrow> conn_inv (heap s ! c)"
  unfolding inv_def inv_conns_def using nth_mem by blast

lemma inv_parts:
  "inv s \<Longrightarrow> inv_refs s" "inv s \<Longrightarrow> inv_conns s" "inv s \<Longrightarrow> inv_close s"
  "inv s \<Longrightarrow> inv_l_lock s" "inv s \<Longrightarrow> inv_parked s" "inv s \<Longrightarrow> inv_buf s"
  "inv s \<Longrightarrow> inv_registry s"
  by (simp_all add: inv_def)

lemma inv_closeConn_return:
  assumes "inv s" "t < length (threads s)" "l_lock s = None \<or> l_lock s = Some (Caller t)"
  shows "inv (closeConn_return s t)"
proof -
  note d = closeConn_return_def pConn_Close_def
  note a = assms(2-)
  have "inv_refs (closeConn_return s t)"
    using inv_parts(1) [OF assms(1)] a 
    by (auto simp: inv_refs_def d dest!: in_set_update)
  moreover have "inv_conns (closeConn_return s t)"
    using inv_parts(2) [OF assms(1)] a 
    by (fastforce simp: inv_conns_def d nth_list_update Let_def split: if_splits)
  moreover have "inv_close (closeConn_return s t)"
    using inv_parts(3) [OF assms(1)] a 
    by (fastforce simp: inv_close_def d nth_list_update Let_def split: if_splits)
  moreover have "inv_l_lock (closeConn_return s t)"
    using inv_parts(4) [OF assms(1)] a 
    by (fastforce simp: inv_l_lock_def d nth_list_update Let_def split: if_splits)
  moreover have "inv_parked (closeConn_return s t)"
    using inv_parts(5) [OF assms(1)] a 
    by (fastforce simp: inv_parked_def d nth_list_update Let_def split: if_splits)
  moreover have "inv_buf (closeConn_return s t)"
    using inv_parts(6) [OF assms(1)] a 
    by (fastforce simp: inv_buf_def d nth_list_update Let_def split: if_splits)
  moreover have "inv_registry (closeConn_return s t)"
    using inv_parts(7) [OF assms(1)] a 
    by (fastforce simp: inv_registry_def d nth_list_update Let_def split: if_splits)
  ultimately show ?thesis by (simp add: inv_def)
qed


lemma inv_set_pc_plain:
  assumes "inv s" "t < length (threads s)" "\<forall>c. pc_conn q = Some c \<longrightarrow> c < length (heap s)" "\<forall>c. q \<noteq> Conn_Close_listener_Lock c" "\<forall>d r. q \<noteq> closeConn_select d r"
  shows "inv (set_pc s t q)"
proof -
  note d = set_pc_def
  note a = assms(2-)
  have "inv_refs (set_pc s t q)"
    using inv_parts(1) [OF assms(1)] a 
    by (auto simp: inv_refs_def d dest!: in_set_update)
  moreover have "inv_conns (set_pc s t q)"
    using inv_parts(2) [OF assms(1)] a 
    by (fastforce simp: inv_conns_def d nth_list_update Let_def split: if_splits)
  moreover have "inv_close (set_pc s t q)"
    using inv_parts(3) [OF assms(1)] a 
    by (fastforce simp: inv_close_def d nth_list_update Let_def split: if_splits)
  moreover have "inv_l_lock (set_pc s t q)"
    using inv_parts(4) [OF assms(1)] a 
    by (fastforce simp: inv_l_lock_def d nth_list_update Let_def split: if_splits)
  moreover have "inv_parked (set_pc s t q)"
    using inv_parts(5) [OF assms(1)] a 
    by (fastforce simp: inv_parked_def d nth_list_update Let_def split: if_splits)
  moreover have "inv_buf (set_pc s t q)"
    using inv_parts(6) [OF assms(1)] a 
    by (fastforce simp: inv_buf_def d nth_list_update Let_def split: if_splits)
  moreover have "inv_registry (set_pc s t q)"
    using inv_parts(7) [OF assms(1)] a 
    by (fastforce simp: inv_registry_def d nth_list_update Let_def split: if_splits)
  ultimately show ?thesis by (simp add: inv_def)
qed

lemma inv_wake_acceptors:
  assumes "inv s"
  shows "inv (s\<lparr>l_doneCh := True, threads := map wake_acceptor (threads s)\<rparr>)"
proof -
  note d = TrueI
  note a = refl
  have "inv_refs (s\<lparr>l_doneCh := True, threads := map wake_acceptor (threads s)\<rparr>)"
    using inv_parts(1) [OF assms(1)] a 
    by (fastforce simp: inv_refs_def d nth_list_update Let_def split: if_splits)
  moreover have "inv_conns (s\<lparr>l_doneCh := True, threads := map wake_acceptor (threads s)\<rparr>)"
    using inv_parts(2) [OF assms(1)] a 
    by (fastforce simp: inv_conns_def d nth_list_update Let_def split: if_splits)
  moreover have "inv_close (s\<lparr>l_doneCh := True, threads := map wake_acceptor (threads s)\<rparr>)"
    using inv_parts(3) [OF assms(1)] a 
    by (fastforce simp: inv_close_def d nth_list_update Let_def split: if_splits)
  moreover have "inv_l_lock (s\<lparr>l_doneCh := True, threads := map wake_acceptor (threads s)\<rparr>)"
    using inv_parts(4) [OF assms(1)] a 
    by (fastforce simp: inv_l_lock_def d nth_list_update Let_def split: if_splits)
  moreover have "inv_parked (s\<lparr>l_doneCh := True, threads := map wake_acceptor (threads s)\<rparr>)"
    using inv_parts(5) [OF assms(1)] a 
    by (fastforce simp: inv_parked_def d nth_list_update Let_def split: if_splits)
  moreover have "inv_buf (s\<lparr>l_doneCh := True, threads := map wake_acceptor (threads s)\<rparr>)"
    using inv_parts(6) [OF assms(1)] a 
    by (fastforce simp: inv_buf_def d nth_list_update Let_def split: if_splits)
  moreover have "inv_registry (s\<lparr>l_doneCh := True, threads := map wake_acceptor (threads s)\<rparr>)"
    using inv_parts(7) [OF assms(1)] a 
    by (fastforce simp: inv_registry_def d nth_list_update Let_def split: if_splits)
  ultimately show ?thesis by (simp add: inv_def)
qed


lemma inv_enter_closeConn:
  assumes "inv s" "t < length (threads s)" "l_lock s = None" "conns s \<noteq> []"
  shows "inv (s\<lparr>l_lock := Some (Caller t), threads := (threads s)[t := closeConn_select d r]\<rparr>)"
proof -
  note d = refl
  note a = assms(2-)
  have "inv_refs (s\<lparr>l_lock := Some (Caller t), threads := (threads s)[t := closeConn_select d r]\<rparr>)"
    using inv_parts(1) [OF assms(1)] a 
    by (auto simp: inv_refs_def dest!: in_set_update)
  moreover have "inv_conns (s\<lparr>l_lock := Some (Caller t), threads := (threads s)[t := closeConn_select d r]\<rparr>)"
    using inv_parts(2) [OF assms(1)] a 
    by (fastforce simp: inv_conns_def d nth_list_update Let_def split: if_splits)
  moreover have "inv_close (s\<lparr>l_lock := Some (Caller t), threads := (threads s)[t := closeConn_select d r]\<rparr>)"
    using inv_parts(3) [OF assms(1)] a 
    by (fastforce simp: inv_close_def d nth_list_update Let_def split: if_splits)
  moreover have "inv_l_lock (s\<lparr>l_lock := Some (Caller t), threads := (threads s)[t := closeConn_select d r]\<rparr>)"
    using inv_parts(4) [OF assms(1)] a 
    by (fastforce simp: inv_l_lock_def d nth_list_update Let_def split: if_splits)
  moreover have "inv_parked (s\<lparr>l_lock := Some (Caller t), threads := (threads s)[t := closeConn_select d r]\<rparr>)"
    using inv_parts(5) [OF assms(1)] a 
    by (fastforce simp: inv_parked_def d nth_list_update Let_def split: if_splits)
  moreover have "inv_buf (s\<lparr>l_lock := Some (Caller t), threads := (threads s)[t := closeConn_select d r]\<rparr>)"
    using inv_parts(6) [OF assms(1)] a 
    by (fastforce simp: inv_buf_def d nth_list_update Let_def split: if_splits)
  moreover have "inv_registry (s\<lparr>l_lock := Some (Caller t), threads := (threads s)[t := closeConn_select d r]\<rparr>)"
    using inv_parts(7) [OF assms(1)] a 
    by (fastforce simp: inv_registry_def d nth_list_update Let_def split: if_splits)
  ultimately show ?thesis by (simp add: inv_def)
qed

lemma inv_closeConn_again:
  assumes "inv s" "t < length (threads s)" "l_lock s = Some (Caller t)"
  shows "inv (set_pc s t (closeConn_select d r))"
proof -
  note d = set_pc_def
  note a = assms(2-)
  have "inv_refs (set_pc s t (closeConn_select d r))"
    using inv_parts(1) [OF assms(1)] a 
    by (auto simp: inv_refs_def d dest!: in_set_update)
  moreover have "inv_conns (set_pc s t (closeConn_select d r))"
    using inv_parts(2) [OF assms(1)] a 
    by (fastforce simp: inv_conns_def d nth_list_update Let_def split: if_splits)
  moreover have "inv_close (set_pc s t (closeConn_select d r))"
    using inv_parts(3) [OF assms(1)] a 
    by (fastforce simp: inv_close_def d nth_list_update Let_def split: if_splits)
  moreover have "inv_l_lock (set_pc s t (closeConn_select d r))"
    using inv_parts(4) [OF assms(1)] a 
    by (fastforce simp: inv_l_lock_def d nth_list_update Let_def split: if_splits)
  moreover have "inv_parked (set_pc s t (closeConn_select d r))"
    using inv_parts(5) [OF assms(1)] a 
    by (fastforce simp: inv_parked_def d nth_list_update Let_def split: if_splits)
  moreover have "inv_buf (set_pc s t (closeConn_select d r))"
    using inv_parts(6) [OF assms(1)] a 
    by (fastforce simp: inv_buf_def d nth_list_update Let_def split: if_splits)
  moreover have "inv_registry (set_pc s t (closeConn_select d r))"
    using inv_parts(7) [OF assms(1)] a 
    by (fastforce simp: inv_registry_def d nth_list_update Let_def split: if_splits)
  ultimately show ?thesis by (simp add: inv_def)
qed

lemma closeConn_select_holds_lock:
  "inv s \<Longrightarrow> t < length (threads s) \<Longrightarrow> threads s ! t = closeConn_select d r
   \<Longrightarrow> l_lock s = Some (Caller t)"
  unfolding inv_def inv_l_lock_def by blast

lemma inv_Listener_Close:
  assumes "inv s" "t < length (threads s)"
  shows "inv (Listener_Close s t timeout)"
proof -
  let ?s1 = "s\<lparr>l_doneCh := True, threads := map wake_acceptor (threads s)\<rparr>"
  have s1: "inv ?s1" by (rule inv_wake_acceptors [OF assms(1)])
  have t1: "t < length (threads ?s1)" using assms(2) by simp
  consider (blocked) "l_lock s \<noteq> None"
    | (once) "l_lock s = None" "l_doneOnce s"
    | (empty) "l_lock s = None" "\<not> l_doneOnce s" "conns s = []"
    | (wait) "l_lock s = None" "\<not> l_doneOnce s" "conns s \<noteq> []"
    by blast
  then show ?thesis
  proof cases
    case blocked
    then show ?thesis using assms(1) by (simp add: Listener_Close_def)
  next
    case once
    then show ?thesis
      using inv_set_pc_plain [OF assms(1,2), of "Returned (Close_result None)"]
      by (simp add: Listener_Close_def)
  next
    case empty
    then show ?thesis
      using inv_closeConn_return [OF s1 t1] by (simp add: Listener_Close_def)
  next
    case wait
    then show ?thesis
      using inv_enter_closeConn [OF s1 t1, of "now s + timeout" "now s + closeRecheckDuration"]
      by (simp add: Listener_Close_def)
  qed
qed

lemma inv_closeConn:
  assumes "inv s" "t < length (threads s)" "threads s ! t = closeConn_select d r"
  shows "inv (closeConn s t d r ch)"
proof -
  have l: "l_lock s = Some (Caller t)"
    by (rule closeConn_select_holds_lock [OF assms])
  have "inv (closeConn_return s t)"
    using inv_closeConn_return [OF assms(1,2)] l by simp
  moreover have "inv (set_pc s t (closeConn_select d (now s + closeRecheckDuration)))"
    by (rule inv_closeConn_again [OF assms(1,2) l])
  ultimately show ?thesis using assms(1) by (simp add: closeConn_def Let_def)
qed

lemma inv_Conn_Write:
  assumes "inv s" "t < length (threads s)" "threads s ! t = Write_Lock c p"
  shows "inv (Conn_Write s t c p)"
proof -
  have c: "c < length (heap s)" using thread_conn_valid [OF assms(1,2)] assms(3) by simp
  have "inv (set_pc s t (Returned (IO_result 0 (Some io_EOF) p)))"
    by (rule inv_set_pc_plain [OF assms(1,2)]) simp_all
  moreover have "inv (set_pc s t (Write_WriteTo c p))"
    by (rule inv_set_pc_plain [OF assms(1,2)]) (simp_all add: c)
  ultimately show ?thesis using assms(1) by (simp add: Conn_Write_def)
qed

lemma inv_pConn_sent: "inv s \<Longrightarrow> inv (s\<lparr>pConn_sent := x\<rparr>)"
  by (simp add: inv_defs)

lemma inv_Conn_Write_WriteTo:
  assumes "inv s" "t < length (threads s)"
  shows "inv (Conn_Write_WriteTo s t c p answer)"
proof -
  have "inv (set_pc s' t (Returned (IO_result n e p)))" if "inv s'" "threads s' = threads s" for s' n e
    using that assms(2) by (intro inv_set_pc_plain) simp_all
  then show ?thesis
    using assms(1) inv_pConn_sent [OF assms(1)]
    by (simp add: Conn_Write_WriteTo_def pConn_WriteTo_def split: prod.splits option.splits)
qed

lemma inv_WriteTo_return:
  "inv s \<Longrightarrow> t < length (threads s) \<Longrightarrow> inv (WriteTo_return s t answer)"
  by (simp add: WriteTo_return_def inv_Conn_Write_WriteTo split: pc.splits)


lemma inv_set_readLoop:
  assumes "inv s" "\<forall>c. loop_conn r = Some c \<longrightarrow> c < length (heap s)" "\<forall>c n. r \<noteq> RL_acceptCh_send c n" "\<forall>c n. r = RL_parked c n \<longrightarrow> \<not> c_doneCh (heap s ! c)" "loop_n r \<le> receiveMTU"
  shows "inv (s\<lparr>readLoop := r\<rparr>)"
proof -
  note d = refl
  note a = assms(2-)
  have "inv_refs (s\<lparr>readLoop := r\<rparr>)"
    using inv_parts(1) [OF assms(1)] a 
    by (fastforce simp: inv_refs_def d nth_list_update Let_def split: if_splits)
  moreover have "inv_conns (s\<lparr>readLoop := r\<rparr>)"
    using inv_parts(2) [OF assms(1)] a 
    by (fastforce simp: inv_conns_def d nth_list_update Let_def split: if_splits)
  moreover have "inv_close (s\<lparr>readLoop := r\<rparr>)"
    using inv_parts(3) [OF assms(1)] a 
    by (fastforce simp: inv_close_def d nth_list_update Let_def split: if_splits)
  moreover have "inv_l_lock (s\<lparr>readLoop := r\<rparr>)"
    using inv_parts(4) [OF assms(1)] a 
    by (fastforce simp: inv_l_lock_def d nth_list_update Let_def split: if_splits)
  moreover have "inv_parked (s\<lparr>readLoop := r\<rparr>)"
    using inv_parts(5) [OF assms(1)] a 
    by (fastforce simp: inv_parked_def d nth_list_update Let_def split: if_splits)
  moreover have "inv_buf (s\<lparr>readLoop := r\<rparr>)"
    using inv_parts(6) [OF assms(1)] a 
    by (fastforce simp: inv_buf_def d nth_list_update Let_def split: if_splits)
  moreover have "inv_registry (s\<lparr>readLoop := r\<rparr>)"
    using inv_parts(7) [OF assms(1)] a 
    by (fastforce simp: inv_registry_def d nth_list_update Let_def split: if_splits)
  ultimately show ?thesis by (simp add: inv_def)
qed

lemma inv_handoff:
  assumes "inv s" "t < length (threads s)"
  shows "inv (s\<lparr>threads := (threads s)[t := Returned res], readLoop := RL_ReadFrom\<rparr>)"
proof -
  have "inv (set_pc s t (Returned res))"
    by (rule inv_set_pc_plain [OF assms]) simp_all
  from inv_set_readLoop [OF this, of RL_ReadFrom] show ?thesis
    by (simp add: set_pc_def)
qed

lemma inv_deliver:
  "inv s \<Longrightarrow> t < length (threads s) \<Longrightarrow> inv (deliver s t p n)"
  by (simp add: deliver_def inv_handoff split: prod.splits)

lemma inv_Conn_Read:
  assumes "inv s" "t < length (threads s)" "threads s ! t = Read_select c p"
  shows "inv (Conn_Read s t c p ch)"
proof -
  have c: "c < length (heap s)" using thread_conn_valid [OF assms(1,2)] assms(3) by simp
  have "inv (set_pc s t (Returned (IO_result 0 (Some io_EOF) p)))"
    by (rule inv_set_pc_plain [OF assms(1,2)]) simp_all
  moreover have "inv (set_pc s t (Read_parked c p))"
    by (rule inv_set_pc_plain [OF assms(1,2)]) (simp_all add: c)
  moreover have "inv (deliver s t p n)" for n
    by (rule inv_deliver [OF assms(1,2)])
  ultimately show ?thesis
    by (simp add: Conn_Read_def Let_def split: option.splits)
qed

lemma length_go_copy: "length (snd (go_copy dst src)) = length dst"
  by (simp add: go_copy_def Let_def)

lemma fst_go_copy: "fst (go_copy dst src) = min (length dst) (length src)"
  by (simp add: go_copy_def Let_def)

lemma inv_readLoop_ReadFrom:
  assumes "inv s"
  shows "inv (readLoop_ReadFrom s)"
proof (cases "pConn_open s")
  case False
  then show ?thesis
    using inv_set_readLoop [OF assms, of RL_return] by (simp add: readLoop_ReadFrom_def)
next
  case True
  show ?thesis
  proof (cases "pConn_inbox s")
    case Nil
    then show ?thesis using True assms by (simp add: readLoop_ReadFrom_def)
  next
    case (Cons e rest)
    obtain raddr payload where e: "e = (raddr, payload)" by (cases e)
    let ?n = "fst (go_copy (buf s) payload)" and ?b = "snd (go_copy (buf s) payload)"
    have b: "inv_buf s" by (rule inv_parts(6) [OF assms])
    have n: "?n \<le> receiveMTU" using b by (simp add: fst_go_copy inv_buf_def)
    have 1: "inv (s\<lparr>readLoop := RL_getConn raddr ?n\<rparr>)"
      by (rule inv_set_readLoop [OF assms]) (simp_all add: n)
    have "inv (s\<lparr>pConn_inbox := rest, buf := ?b, readLoop := RL_getConn raddr ?n\<rparr>)"
      using 1 by (simp add: inv_defs length_go_copy)
    then show ?thesis
      using True Cons e by (auto simp: readLoop_ReadFrom_def split: prod.splits)
  qed
qed


lemma inv_Conn_Close_first:
  assumes "inv s" "t < length (threads s)" "c < length (heap s)" "c_lock (heap s ! c) = None" "\<not> c_doneOnce (heap s ! c)" "conn_inv (heap s ! c)"
  shows "inv (s\<lparr>heap := (heap s)[c := (heap s ! c)\<lparr>c_lock := Some t, c_doneCh := True\<rparr>], threads := (map (wake_reader c) (threads s))[t := Conn_Close_listener_Lock c], readLoop := wake_readLoop c (readLoop s)\<rparr>)"
proof -
  note d = conn_inv_def
  note a = assms(2-)
  have "inv_refs (s\<lparr>heap := (heap s)[c := (heap s ! c)\<lparr>c_lock := Some t, c_doneCh := True\<rparr>], threads := (map (wake_reader c) (threads s))[t := Conn_Close_listener_Lock c], readLoop := wake_readLoop c (readLoop s)\<rparr>)"
    using inv_parts(1) [OF assms(1)] a 
    by (auto simp: inv_refs_def dest!: in_set_update pc_conn_wake_reader loop_conn_wake_readLoop)
  moreover have "inv_conns (s\<lparr>heap := (heap s)[c := (heap s ! c)\<lparr>c_lock := Some t, c_doneCh := True\<rparr>], threads := (map (wake_reader c) (threads s))[t := Conn_Close_listener_Lock c], readLoop := wake_readLoop c (readLoop s)\<rparr>)"
    using inv_parts(2) [OF assms(1)] a 
    by (auto simp: inv_conns_def d dest!: in_set_update)
  moreover have "inv_close (s\<lparr>heap := (heap s)[c := (heap s ! c)\<lparr>c_lock := Some t, c_doneCh := True\<rparr>], threads := (map (wake_reader c) (threads s))[t := Conn_Close_listener_Lock c], readLoop := wake_readLoop c (readLoop s)\<rparr>)"
    using inv_parts(3) [OF assms(1)] a 
    by (fastforce simp: inv_close_def d nth_list_update Let_def split: if_splits)
  moreover have "inv_l_lock (s\<lparr>heap := (heap s)[c := (heap s ! c)\<lparr>c_lock := Some t, c_doneCh := True\<rparr>], threads := (map (wake_reader c) (threads s))[t := Conn_Close_listener_Lock c], readLoop := wake_readLoop c (readLoop s)\<rparr>)"
    using inv_parts(4) [OF assms(1)] a 
    by (fastforce simp: inv_l_lock_def d nth_list_update Let_def split: if_splits)
  moreover have "inv_parked (s\<lparr>heap := (heap s)[c := (heap s ! c)\<lparr>c_lock := Some t, c_doneCh := True\<rparr>], threads := (map (wake_reader c) (threads s))[t := Conn_Close_listener_Lock c], readLoop := wake_readLoop c (readLoop s)\<rparr>)"
    using inv_parts(5) [OF assms(1)] a 
    by (fastforce simp: inv_parked_def d nth_list_update Let_def split: if_splits)
  moreover have "inv_buf (s\<lparr>heap := (heap s)[c := (heap s ! c)\<lparr>c_lock := Some t, c_doneCh := True\<rparr>], threads := (map (wake_reader c) (threads s))[t := Conn_Close_listener_Lock c], readLoop := wake_readLoop c (readLoop s)\<rparr>)"
    using inv_parts(6) [OF assms(1)] a 
    using loop_n_wake_readLoop [of c "readLoop s"] by (simp add: inv_buf_def)
  moreover have "inv_registry (s\<lparr>heap := (heap s)[c := (heap s ! c)\<lparr>c_lock := Some t, c_doneCh := True\<rparr>], threads := (map (wake_reader c) (threads s))[t := Conn_Close_listener_Lock c], readLoop := wake_readLoop c (readLoop s)\<rparr>)"
    using inv_parts(7) [OF assms(1)] a 
    by (fastforce simp: inv_registry_def d nth_list_update Let_def split: if_splits)
  ultimately show ?thesis by (simp add: inv_def)
qed


lemma inv_Conn_Close:
  assumes "inv s" "t < length (threads s)" "threads s ! t = Conn_Close_Lock c"
  shows "inv (Conn_Close s t c)"
proof -
  have c: "c < length (heap s)" using thread_conn_valid [OF assms(1,2)] assms(3) by simp
  have k: "conn_inv (heap s ! c)" by (rule heap_conn_inv [OF assms(1) c])
  have "inv (set_pc s t (Returned (Close_result None)))"
    by (rule inv_set_pc_plain [OF assms(1,2)]) simp_all
  then show ?thesis
    using assms(1) inv_Conn_Close_first [OF assms(1,2) c _ _ k]
    by (simp add: Conn_Close_def)
qed

lemma Conn_Close_listener_Lock_holds_lock:
  "inv s \<Longrightarrow> t < length (threads s) \<Longrightarrow> threads s ! t = Conn_Close_listener_Lock c
   \<Longrightarrow> c_lock (heap s ! c) = Some t"
  unfolding inv_def inv_close_def by blast

lemma inv_Conn_Close_last:
  assumes "inv s" "t < length (threads s)" "c < length (heap s)" "c_lock (heap s ! c) = Some t" "l_lock s = None" "conn_inv (heap s ! c)"
  shows "inv (s\<lparr>conns := delete_key (rAddr (heap s ! c)) (conns s), heap := (heap s)[c := (heap s ! c)\<lparr>listener := False, c_doneOnce := True, c_lock := None\<rparr>], threads := (threads s)[t := Returned (Close_result None)]\<rparr>)"
proof -
  note d = conn_inv_def delete_key_def
  note a = assms(2-)
  have "inv_refs (s\<lparr>conns := delete_key (rAddr (heap s ! c)) (conns s), heap := (heap s)[c := (heap s ! c)\<lparr>listener := False, c_doneOnce := True, c_lock := None\<rparr>], threads := (threads s)[t := Returned (Close_result None)]\<rparr>)"
    using inv_parts(1) [OF assms(1)] a 
    by (auto simp: inv_refs_def d dest!: in_set_update)
  moreover have "inv_conns (s\<lparr>conns := delete_key (rAddr (heap s ! c)) (conns s), heap := (heap s)[c := (heap s ! c)\<lparr>listener := False, c_doneOnce := True, c_lock := None\<rparr>], threads := (threads s)[t := Returned (Close_result None)]\<rparr>)"
    using inv_parts(2) [OF assms(1)] a 
    by (auto simp: inv_conns_def d dest!: in_set_update)
  moreover have "inv_close (s\<lparr>conns := delete_key (rAddr (heap s ! c)) (conns s), heap := (heap s)[c := (heap s ! c)\<lparr>listener := False, c_doneOnce := True, c_lock := None\<rparr>], threads := (threads s)[t := Returned (Close_result None)]\<rparr>)"
    using inv_parts(3) [OF assms(1)] a 
    by (fastforce simp: inv_close_def d nth_list_update Let_def split: if_splits)
  moreover have "inv_l_lock (s\<lparr>conns := delete_key (rAddr (heap s ! c)) (conns s), heap := (heap s)[c := (heap s ! c)\<lparr>listener := False, c_doneOnce := True, c_lock := None\<rparr>], threads := (threads s)[t := Returned (Close_result None)]\<rparr>)"
    using inv_parts(4) [OF assms(1)] a 
    by (fastforce simp: inv_l_lock_def d nth_list_update Let_def split: if_splits)
  moreover have "inv_parked (s\<lparr>conns := delete_key (rAddr (heap s ! c)) (conns s), heap := (heap s)[c := (heap s ! c)\<lparr>listener := False, c_doneOnce := True, c_lock := None\<rparr>], threads := (threads s)[t := Returned (Close_result None)]\<rparr>)"
    using inv_parts(5) [OF assms(1)] a 
    by (fastforce simp: inv_parked_def d nth_list_update Let_def split: if_splits)
  moreover have "inv_buf (s\<lparr>conns := delete_key (rAddr (heap s ! c)) (conns s), heap := (heap s)[c := (heap s ! c)\<lparr>listener := False, c_doneOnce := True, c_lock := None\<rparr>], threads := (threads s)[t := Returned (Close_result None)]\<rparr>)"
    using inv_parts(6) [OF assms(1)] a 
    by (fastforce simp: inv_buf_def d nth_list_update Let_def split: if_splits)
  moreover have "inv_registry (s\<lparr>conns := delete_key (rAddr (heap s ! c)) (conns s), heap := (heap s)[c := (heap s ! c)\<lparr>listener := False, c_doneOnce := True, c_lock := None\<rparr>], threads := (threads s)[t := Returned (Close_result None)]\<rparr>)"
    using inv_parts(7) [OF assms(1)] a 
    by (fastforce simp: inv_registry_def d nth_list_update Let_def split: if_splits)
  ultimately show ?thesis by (simp add: inv_def)
qed

lemma inv_Conn_Close_listener:
  assumes "inv s" "t < length (threads s)" "threads s ! t = Conn_Close_listener_Lock c"
  shows "inv (Conn_Close_listener s t c)"
proof -
  have c: "c < length (heap s)" using thread_conn_valid [OF assms(1,2)] assms(3) by simp
  have k: "conn_inv (heap s ! c)" by (rule heap_conn_inv [OF assms(1) c])
  have l: "c_lock (heap s ! c) = Some t"
    by (rule Conn_Close_listener_Lock_holds_lock [OF assms])
  have "inv (set_pc s t Panicked)"
    by (rule inv_set_pc_plain [OF assms(1,2)]) simp_all
  then show ?thesis
    using assms(1) inv_Conn_Close_last [OF assms(1,2) c l _ k]
    by (simp add: Conn_Close_listener_def)
qed


lemma loop_conn_valid:
  "inv s \<Longrightarrow> loop_conn (readLoop s) = Some c \<Longrightarrow> c < length (heap s)"
  unfolding inv_def inv_refs_def by blast

lemma registry_conn_valid:
  "inv s \<Longrightarrow> e \<in> set (conns s) \<Longrightarrow> snd e < length (heap s)"
  unfolding inv_def inv_refs_def by blast

lemma conn_inv_newConn: "conn_inv (newConn a)"
  by (simp add: conn_inv_def newConn_def)

lemma inv_getConn_handoff:
  assumes "inv s" "t < length (threads s)" "l_lock s = None" "n \<le> receiveMTU"
  shows "inv (s\<lparr>heap := heap s @ [newConn raddr], conns := conns s @ [(raddr, length (heap s))], threads := (threads s)[t := Returned (Accept_result (Inr (length (heap s))))], readLoop := RL_select (length (heap s)) n\<rparr>)"
proof -
  note d = nth_append conn_inv_newConn
  note a = assms(2-)
  have "inv_refs (s\<lparr>heap := heap s @ [newConn raddr], conns := conns s @ [(raddr, length (heap s))], threads := (threads s)[t := Returned (Accept_result (Inr (length (heap s))))], readLoop := RL_select (length (heap s)) n\<rparr>)"
    using inv_parts(1) [OF assms(1)] a thread_conn_valid [OF assms(1)] loop_conn_valid [OF assms(1)] registry_conn_valid [OF assms(1)]
    by (auto simp: inv_refs_def d less_Suc_eq dest!: in_set_update)
  moreover have "inv_conns (s\<lparr>heap := heap s @ [newConn raddr], conns := conns s @ [(raddr, length (heap s))], threads := (threads s)[t := Returned (Accept_result (Inr (length (heap s))))], readLoop := RL_select (length (heap s)) n\<rparr>)"
    using inv_parts(2) [OF assms(1)] a thread_conn_valid [OF assms(1)] loop_conn_valid [OF assms(1)] registry_conn_valid [OF assms(1)]
    by (auto simp: inv_conns_def d)
  moreover have "inv_close (s\<lparr>heap := heap s @ [newConn raddr], conns := conns s @ [(raddr, length (heap s))], threads := (threads s)[t := Returned (Accept_result (Inr (length (heap s))))], readLoop := RL_select (length (heap s)) n\<rparr>)"
    using inv_parts(3) [OF assms(1)] a thread_conn_valid [OF assms(1)] loop_conn_valid [OF assms(1)] registry_conn_valid [OF assms(1)]
    by (fastforce simp: inv_close_def d nth_list_update Let_def split: if_splits)
  moreover have "inv_l_lock (s\<lparr>heap := heap s @ [newConn raddr], conns := conns s @ [(raddr, length (heap s))], threads := (threads s)[t := Returned (Accept_result (Inr (length (heap s))))], readLoop := RL_select (length (heap s)) n\<rparr>)"
    using inv_parts(4) [OF assms(1)] a thread_conn_valid [OF assms(1)] loop_conn_valid [OF assms(1)] registry_conn_valid [OF assms(1)]
    by (fastforce simp: inv_l_lock_def d nth_list_update Let_def split: if_splits)
  moreover have "inv_parked (s\<lparr>heap := heap s @ [newConn raddr], conns := conns s @ [(raddr, length (heap s))], threads := (threads s)[t := Returned (Accept_result (Inr (length (heap s))))], readLoop := RL_select (length (heap s)) n\<rparr>)"
    using inv_parts(5) [OF assms(1)] a thread_conn_valid [OF assms(1)] loop_conn_valid [OF assms(1)] registry_conn_valid [OF assms(1)]
    by (fastforce simp: inv_parked_def d nth_list_update Let_def split: if_splits)
  moreover have "inv_buf (s\<lparr>heap := heap s @ [newConn raddr], conns := conns s @ [(raddr, length (heap s))], threads := (threads s)[t := Returned (Accept_result (Inr (length (heap s))))], readLoop := RL_select (length (heap s)) n\<rparr>)"
    using inv_parts(6) [OF assms(1)] a thread_conn_valid [OF assms(1)] loop_conn_valid [OF assms(1)] registry_conn_valid [OF assms(1)]
    by (fastforce simp: inv_buf_def d nth_list_update Let_def split: if_splits)
  moreover have "inv_registry (s\<lparr>heap := heap s @ [newConn raddr], conns := conns s @ [(raddr, length (heap s))], threads := (threads s)[t := Returned (Accept_result (Inr (length (heap s))))], readLoop := RL_select (length (heap s)) n\<rparr>)"
    using inv_parts(7) [OF assms(1)] a thread_conn_valid [OF assms(1)] loop_conn_valid [OF assms(1)] registry_conn_valid [OF assms(1)]
    by (auto simp: inv_registry_def d newConn_def)
  ultimately show ?thesis by (simp add: inv_def)
qed

lemma inv_getConn_send:
  assumes "inv s" "l_lock s = None" "n \<le> receiveMTU"
  shows "inv (s\<lparr>heap := heap s @ [newConn raddr], conns := conns s @ [(raddr, length (heap s))], l_lock := Some ReadLoop, readLoop := RL_acceptCh_send (length (heap s)) n\<rparr>)"
proof -
  note d = nth_append conn_inv_newConn
  note a = assms(2-)
  have "inv_refs (s\<lparr>heap := heap s @ [newConn raddr], conns := conns s @ [(raddr, length (heap s))], l_lock := Some ReadLoop, readLoop := RL_acceptCh_send (length (heap s)) n\<rparr>)"
    using inv_parts(1) [OF assms(1)] a thread_conn_valid [OF assms(1)] loop_conn_valid [OF assms(1)] registry_conn_valid [OF assms(1)]
    by (auto simp: inv_refs_def d less_Suc_eq dest!: in_set_update)
  moreover have "inv_conns (s\<lparr>heap := heap s @ [newConn raddr], conns := conns s @ [(raddr, length (heap s))], l_lock := Some ReadLoop, readLoop := RL_acceptCh_send (length (heap s)) n\<rparr>)"
    using inv_parts(2) [OF assms(1)] a thread_conn_valid [OF assms(1)] loop_conn_valid [OF assms(1)] registry_conn_valid [OF assms(1)]
    by (auto simp: inv_conns_def d)
  moreover have "inv_close (s\<lparr>heap := heap s @ [newConn raddr], conns := conns s @ [(raddr, length (heap s))], l_lock := Some ReadLoop, readLoop := RL_acceptCh_send (length (heap s)) n\<rparr>)"
    using inv_parts(3) [OF assms(1)] a thread_conn_valid [OF assms(1)] loop_conn_valid [OF assms(1)] registry_conn_valid [OF assms(1)]
    by (fastforce simp: inv_close_def d nth_list_update Let_def split: if_splits)
  moreover have "inv_l_lock (s\<lparr>heap := heap s @ [newConn raddr], conns := conns s @ [(raddr, length (heap s))], l_lock := Some ReadLoop, readLoop := RL_acceptCh_send (length (heap s)) n\<rparr>)"
    using inv_parts(4) [OF assms(1)] a thread_conn_valid [OF assms(1)] loop_conn_valid [OF assms(1)] registry_conn_valid [OF assms(1)]
    by (fastforce simp: inv_l_lock_def d nth_list_update Let_def split: if_splits)
  moreover have "inv_parked (s\<lparr>heap := heap s @ [newConn raddr], conns := conns s @ [(raddr, length (heap s))], l_lock := Some ReadLoop, readLoop := RL_acceptCh_send (length (heap s)) n\<rparr>)"
    using inv_parts(5) [OF assms(1)] a thread_conn_valid [OF assms(1)] loop_conn_valid [OF assms(1)] registry_conn_valid [OF assms(1)]
    by (fastforce simp: inv_parked_def d nth_list_update Let_def split: if_splits)
  moreover have "inv_buf (s\<lparr>heap := heap s @ [newConn raddr], conns := conns s @ [(raddr, length (heap s))], l_lock := Some ReadLoop, readLoop := RL_acceptCh_send (length (heap s)) n\<rparr>)"
    using inv_parts(6) [OF assms(1)] a thread_conn_valid [OF assms(1)] loop_conn_valid [OF assms(1)] registry_conn_valid [OF assms(1)]
    by (fastforce simp: inv_buf_def d nth_list_update Let_def split: if_splits)
  moreover have "inv_registry (s\<lparr>heap := heap s @ [newConn raddr], conns := conns s @ [(raddr, length (heap s))], l_lock := Some ReadLoop, readLoop := RL_acceptCh_send (length (heap s)) n\<rparr>)"
    using inv_parts(7) [OF assms(1)] a thread_conn_valid [OF assms(1)] loop_conn_valid [OF assms(1)] registry_conn_valid [OF assms(1)]
    by (auto simp: inv_registry_def d newConn_def)
  ultimately show ?thesis by (simp add: inv_def)
qed


lemma loop_n_bound: "inv s \<Longrightarrow> loop_n (readLoop s) \<le> receiveMTU"
  unfolding inv_def inv_buf_def by blast

lemma map_of_registry:
  "inv s \<Longrightarrow> map_of (conns s) a = Some c \<Longrightarrow> c < length (heap s)"
  using registry_conn_valid [of s "(a, c)"] by (auto dest: map_of_SomeD)

lemma inv_getConn:
  assumes "inv s" "readLoop s = RL_getConn raddr n"
  shows "inv (getConn s raddr n)"
proof -
  have n: "n \<le> receiveMTU" using loop_n_bound [OF assms(1)] assms(2) by simp
  show ?thesis
  proof (cases "l_lock s \<noteq> None")
    case True
    then show ?thesis using assms(1) by (simp add: getConn_def)
  next
    case False
    then have l: "l_lock s = None" by simp
    show ?thesis
    proof (cases "map_of (conns s) raddr")
      case (Some conn)
      have "inv (s\<lparr>readLoop := RL_select conn n\<rparr>)"
        by (rule inv_set_readLoop [OF assms(1)])
           (simp_all add: n map_of_registry [OF assms(1) Some])
      then show ?thesis using l Some by (simp add: getConn_def)
    next
      case None
      show ?thesis
      proof (cases "accepting s")
        case False
        have "inv (s\<lparr>readLoop := RL_ReadFrom\<rparr>)"
          by (rule inv_set_readLoop [OF assms(1)]) simp_all
        then show ?thesis using l None False by (simp add: getConn_def)
      next
        case True
        show ?thesis
        proof (cases "first_index parked_acceptor (threads s)")
          case None': None
          then show ?thesis
            using l None True inv_getConn_send [OF assms(1) l n, of raddr]
            by (simp add: getConn_def Let_def)
        next
          case (Some t)
          then have "t < length (threads s)" by (simp add: first_index_Some)
          from inv_getConn_handoff [OF assms(1) this l n, of raddr] show ?thesis
            using l None True Some by (simp add: getConn_def Let_def)
        qed
      qed
    qed
  qed
qed

lemma inv_readLoop_select:
  assumes "inv s" "readLoop s = RL_select c n"
  shows "inv (readLoop_select s c n ch)"
proof -
  have n: "n \<le> receiveMTU" using loop_n_bound [OF assms(1)] assms(2) by simp
  have c: "c < length (heap s)" using loop_conn_valid [OF assms(1)] assms(2) by simp
  have 1: "inv (s\<lparr>readLoop := RL_ReadFrom\<rparr>)"
    by (rule inv_set_readLoop [OF assms(1)]) simp_all
  have 2: "inv (s\<lparr>readLoop := RL_parked c n\<rparr>)" if "\<not> c_doneCh (heap s ! c)"
    by (rule inv_set_readLoop [OF assms(1)]) (simp_all add: n c that)
  show ?thesis
  proof (cases "first_index (parked_reader c) (threads s)")
    case None
    then show ?thesis using 1 2 by (simp add: readLoop_select_def Let_def)
  next
    case (Some t)
    then have "t < length (threads s)" by (simp add: first_index_Some)
    from inv_deliver [OF assms(1) this] show ?thesis
      using 1 Some by (simp add: readLoop_select_def Let_def)
  qed
qed

lemma inv_readLoop_step: "inv s \<Longrightarrow> inv (readLoop_step s ch)"
  by (simp add: readLoop_step_def inv_readLoop_ReadFrom inv_getConn inv_readLoop_select
      split: loop_pc.splits)

lemma inv_thread_step: "inv s \<Longrightarrow> t < length (threads s) \<Longrightarrow> inv (thread_step s t ch)"
  by (simp add: thread_step_def inv_Accept inv_Listener_Close inv_closeConn inv_Conn_Read
      inv_Conn_Write inv_Conn_Close inv_Conn_Close_listener
      split: pc.splits)

lemma inv_step: "inv s \<Longrightarrow> inv (step a s)"
  by (cases a)
     (simp_all add: step_def inv_Spawn inv_call_step inv_thread_step inv_readLoop_step
        inv_Datagram inv_Tick inv_WriteTo_return)

lemma inv_run: "inv s \<Longrightarrow> inv (run sched s)"
  by (induction sched arbitrary: s) (simp_all add: inv_step)

lemma inv_new_Listener: "inv (new_Listener close_err)"
  by (simp add: new_Listener_def inv_defs)

lemma inv_Listen: "Listen None close_err = Inr s \<Longrightarrow> inv s"
  by (auto simp: Listen_def inv_new_Listener)

lemma inv_accepting [simp]: "inv (s\<lparr>accepting := b\<rparr>) = inv s"
  by (simp add: inv_defs)

lemma WriteTo_return_frame:
  "l_doneOnce (WriteTo_return s t answer) = l_doneOnce s"
  "heap (WriteTo_return s t answer) = heap s"
  "conns (WriteTo_return s t answer) = conns s"
  "now (WriteTo_return s t answer) = now s"
  "pConn_open (WriteTo_return s t answer) = pConn_open s"
  "readLoop (WriteTo_return s t answer) = readLoop s"
  "pConn_inbox (WriteTo_return s t answer) = pConn_inbox s"
  "buf (WriteTo_return s t answer) = buf s"
  "accepting (WriteTo_return s t answer) = accepting s"
  "length (threads (WriteTo_return s t answer)) = length (threads s)"
  by (simp_all add: WriteTo_return_def Conn_Write_WriteTo_def pConn_WriteTo_def set_pc_def
      split: pc.splits prod.splits option.splits)

lemma WriteTo_return_other:
  "t' \<noteq> t \<Longrightarrow> threads (WriteTo_return s t answer) ! t' = threads s ! t'"
  by (simp add: WriteTo_return_def Conn_Write_WriteTo_def pConn_WriteTo_def set_pc_def
      split: pc.splits prod.splits option.splits)

lemma WriteTo_return_not_writing:
  "\<forall>c p. threads s ! t \<noteq> Write_WriteTo c p \<Longrightarrow> WriteTo_return s t answer = s"
  by (simp add: WriteTo_return_def split: pc.splits)

subsection \<open>No connection is ever accepted\<close>

lemma never_accepting_new_Listener: "never_accepting (new_Listener close_err)"
  by (simp add: never_accepting_def new_Listener_def)

lemma pc_conn_None_cases:
  "pc_conn q = None \<Longrightarrow>
     q = Idle \<or> (\<exists>r. q = Returned r) \<or> q = Panicked \<or> q = Accept_select \<or> q = Accept_parked
     \<or> (\<exists>x. q = Listener_Close_Lock x) \<or> (\<exists>d r. q = closeConn_select d r)"
  by (cases q) auto

lemma never_accepting_set_pc:
  "never_accepting s \<Longrightarrow> pc_conn q = None \<Longrightarrow> \<forall>c. q \<noteq> Returned (Accept_result (Inr c))
   \<Longrightarrow> never_accepting (set_pc s t q)"
  by (auto simp: never_accepting_def set_pc_def dest!: in_set_update)

lemma never_accepting_closeConn_return:
  "never_accepting s \<Longrightarrow> never_accepting (closeConn_return s t)"
  by (auto simp: never_accepting_def closeConn_return_def pConn_Close_def dest!: in_set_update)

lemma never_accepting_wake:
  "never_accepting s \<Longrightarrow>
   never_accepting (s\<lparr>l_doneCh := True, threads := map wake_acceptor (threads s)\<rparr>)"
proof -
  have "wake_acceptor q \<noteq> Returned (Accept_result (Inr c))"
    if "q \<noteq> Returned (Accept_result (Inr c))" for q c
    using that by (cases q) auto
  then show "never_accepting s \<Longrightarrow> ?thesis"
    by (auto simp: never_accepting_def)
qed

lemma never_accepting_Accept:
  "never_accepting s \<Longrightarrow> never_accepting (Accept s t ch)"
  by (cases "readLoop s")
     (auto simp: Accept_def never_accepting_set_pc never_accepting_def [of s])

lemma never_accepting_Listener_Close:
  assumes "never_accepting s"
  shows "never_accepting (Listener_Close s t timeout)"
proof -
  have "conns s = []" using assms by (simp add: never_accepting_def)
  then show ?thesis
    using assms never_accepting_closeConn_return [OF never_accepting_wake [OF assms], of t]
    by (simp add: Listener_Close_def never_accepting_set_pc)
qed

lemma never_accepting_closeConn:
  "never_accepting s \<Longrightarrow> never_accepting (closeConn s t d r ch)"
  by (simp add: closeConn_def never_accepting_closeConn_return never_accepting_set_pc Let_def)

lemma never_accepting_thread_step:
  assumes "never_accepting s" "t < length (threads s)"
  shows "never_accepting (thread_step s t ch)"
proof -
  have "pc_conn (threads s ! t) = None"
    using assms nth_mem [OF assms(2)] by (simp add: never_accepting_def)
  from pc_conn_None_cases [OF this] show ?thesis
    using assms(1)
    by (auto simp: thread_step_def never_accepting_Accept never_accepting_Listener_Close
        never_accepting_closeConn)
qed

lemma never_accepting_readLoop_step:
  assumes "never_accepting s"
  shows "never_accepting (readLoop_step s ch)"
proof (cases "readLoop s")
  case RL_ReadFrom
  then show ?thesis
    using assms
    by (auto simp: readLoop_step_def readLoop_ReadFrom_def never_accepting_def
        split: list.splits prod.splits)
next
  case (RL_getConn raddr n)
  then show ?thesis
    using assms by (auto simp: readLoop_step_def getConn_def never_accepting_def)
qed (use assms in \<open>auto simp: readLoop_step_def never_accepting_def\<close>)

lemma never_accepting_call_step:
  "never_accepting s \<Longrightarrow> never_accepting (call_step s t c)"
  by (cases c) (auto simp: call_step_def never_accepting_set_pc never_accepting_def [of s])

lemma never_accepting_step: "never_accepting s \<Longrightarrow> never_accepting (step a s)"
proof (cases a)
  case Spawn
  then show "never_accepting s \<Longrightarrow> ?thesis" by (auto simp: step_def never_accepting_def)
next
  case (Datagram raddr payload)
  then show "never_accepting s \<Longrightarrow> ?thesis" by (auto simp: step_def never_accepting_def)
next
  case (Tick d)
  then show "never_accepting s \<Longrightarrow> ?thesis" by (auto simp: step_def never_accepting_def)
next
  case (WriteTo_answer t n err)
  assume n: "never_accepting s"
  have "WriteTo_return s t (n, err) = s" if "t < length (threads s)"
  proof (rule WriteTo_return_not_writing, intro allI notI)
    fix c p assume "threads s ! t = Write_WriteTo c p"
    then show False using n nth_mem [OF that] by (auto simp: never_accepting_def)
  qed
  then show ?thesis using WriteTo_answer n by (simp add: step_def)
qed (simp_all add: step_def never_accepting_call_step never_accepting_thread_step
      never_accepting_readLoop_step)

lemma never_accepting_run: "never_accepting s \<Longrightarrow> never_accepting (run sched s)"
  by (induction sched arbitrary: s) (simp_all add: never_accepting_step)

lemmas step_defs = step_def call_step_def thread_step_def readLoop_step_def set_pc_def
  Accept_def Listener_Close_def closeConn_def closeConn_return_def pConn_Close_def
  Conn_Read_def Conn_Write_def WriteTo_return_def Conn_Write_WriteTo_def pConn_WriteTo_def
  Conn_Close_def Conn_Close_listener_def readLoop_ReadFrom_def getConn_def
  readLoop_select_def deliver_def go_copy_def delete_key_def newConn_def

text \<open>
  C1. The claim is that, between \<open>Listen\<close> and \<open>Close\<close>, every datagram from a new
  source address makes \<open>getConn\<close> create a connection, register it and deliver it through
  \<open>Accept\<close>, so that \<open>N\<close> distinct addresses give \<open>N\<close> accepted connections. In the
  code \<open>Listen\<close> leaves \<open>accepting\<close> at \<open>false\<close> and nothing ever sets it, so
  \<open>getConn\<close> answers \<open>errClosedListener\<close> for every new address: whatever datagrams
  arrive and whatever the application does after \<open>Listen\<close>, the registry stays empty, no
  connection is created and no \<open>Accept\<close> returns one.
\<close>

theorem Listen_never_accepts:
  assumes "Listen None close_err = Inr s0"
  shows "conns (run sched s0) = [] \<and> heap (run sched s0) = []
         \<and> (\<forall>q \<in> set (threads (run sched s0)). \<forall>c. q \<noteq> Returned (Accept_result (Inr c)))"
proof -
  have "s0 = new_Listener close_err" using assms by (simp add: Listen_def)
  then have "never_accepting (run sched s0)"
    by (simp add: never_accepting_run never_accepting_new_Listener)
  then show ?thesis by (simp add: never_accepting_def)
qed

lemma run_first_datagram:
  "run first_datagram (new_Listener None) =
     (new_Listener None)\<lparr>threads := [Accept_parked],
        buf := hello @ replicate (receiveMTU - 5) 0\<rparr>"
  by (simp add: first_datagram_def step_defs new_Listener_def hello_def receiveMTU_def)

theorem Listen_never_accepts_witness:
  "Listen None None = Inr (new_Listener None)
   \<and> conns (run first_datagram (new_Listener None)) = []
   \<and> heap (run first_datagram (new_Listener None)) = []
   \<and> threads (run first_datagram (new_Listener None)) = [Accept_parked]
   \<and> readLoop (run first_datagram (new_Listener None)) = RL_ReadFrom
   \<and> pConn_inbox (run first_datagram (new_Listener None)) = []"
proof -
  have l: "Listen None None = Inr (new_Listener None)" by (simp add: Listen_def)
  have "threads (run first_datagram (new_Listener None)) = [Accept_parked]"
    "readLoop (run first_datagram (new_Listener None)) = RL_ReadFrom"
    "pConn_inbox (run first_datagram (new_Listener None)) = []"
    by (simp_all add: run_first_datagram) (simp_all add: new_Listener_def)
  then show ?thesis
    using Listen_never_accepts [OF l, of first_datagram] l by simp
qed

subsection \<open>What no step undoes\<close>

lemma l_doneOnce_thread_step:
  "l_doneOnce s \<Longrightarrow> l_doneOnce (thread_step s t ch)"
  by (cases "threads s ! t")
     (auto simp: thread_step_def set_pc_def Accept_def Listener_Close_def closeConn_def
        closeConn_return_def pConn_Close_def Conn_Read_def deliver_def Conn_Write_def
        Conn_Close_def Conn_Close_listener_def Let_def
        split: loop_pc.splits option.splits prod.splits)

lemma l_doneOnce_readLoop_step:
  "l_doneOnce s \<Longrightarrow> l_doneOnce (readLoop_step s ch)"
  by (cases "readLoop s")
     (auto simp: readLoop_step_def readLoop_ReadFrom_def getConn_def readLoop_select_def
        deliver_def Let_def split: option.splits prod.splits list.splits)

lemma l_doneOnce_step: "l_doneOnce s \<Longrightarrow> l_doneOnce (step a s)"
  by (cases a)
     (auto simp: step_def call_step_def set_pc_def l_doneOnce_thread_step
        l_doneOnce_readLoop_step WriteTo_return_frame)

lemma l_doneOnce_run: "l_doneOnce s \<Longrightarrow> l_doneOnce (run sched s)"
  by (induction sched arbitrary: s) (simp_all add: l_doneOnce_step)

subsection \<open>Concrete runs\<close>

lemma inv_accepting_Listener: "inv accepting_Listener"
  by (simp add: accepting_Listener_def inv_new_Listener)

lemma inv_one_peer_state: "inv one_peer_state"
  by (simp add: one_peer_state_def inv_run inv_accepting_Listener)

lemma one_peer_state_eq:
  "one_peer_state =
     \<lparr>pConn_open = True, pConn_inbox = [], pConn_sent = [], pConn_Close_result = None,
      l_lock = None, accepting = True, l_doneCh = False, l_doneOnce = False,
      conns = [(''10.0.0.1:5000'', 0)],
      heap = [\<lparr>listener = True, rAddr = ''10.0.0.1:5000'', c_lock = None, c_doneCh = False,
               c_doneOnce = False\<rparr>],
      readLoop = RL_select 0 5, buf = hello @ replicate (receiveMTU - 5) 0,
      threads = [Returned (Accept_result (Inr 0)), Idle], now = 0\<rparr>"
  by (simp add: one_peer_state_def one_peer_def accepting_Listener_def step_defs
      new_Listener_def hello_def receiveMTU_def)

subsection \<open>\<open>Listener.Close\<close>\<close>

lemma empty_registry_unlocked: "inv s \<Longrightarrow> conns s = [] \<Longrightarrow> l_lock s = None"
  unfolding inv_def inv_l_lock_def by blast

text \<open>
  C6. \<open>Listener.Close(timeout)\<close> is idempotent. When the registry is empty at the first
  \<open>Close\<close>, that call closes the socket in the same step, without entering the loop of
  \<open>closeConn\<close> and with no time passing, and returns what the socket's \<open>Close\<close>
  answers. Once the first \<open>Close\<close> is through, every later \<open>Close\<close> changes nothing
  and returns \<open>nil\<close> (it waits only while \<open>getConn\<close> holds the lock), and the once is
  never undone.
\<close>

theorem Listener_Close_immediate_and_idempotent:
  assumes "inv s" "t < length (threads s)" "threads s ! t = Listener_Close_Lock timeout"
  shows "(\<not> l_doneOnce s \<and> conns s = [] \<longrightarrow>
            \<not> pConn_open (step (Run t ch) s)
            \<and> now (step (Run t ch) s) = now s
            \<and> threads (step (Run t ch) s) ! t = Returned (Close_result (pConn_Close_result s))
            \<and> l_doneCh (step (Run t ch) s) \<and> l_doneOnce (step (Run t ch) s)
            \<and> l_lock (step (Run t ch) s) = None)
         \<and> (l_doneOnce s \<longrightarrow>
              step (Run t ch) s
                = (if l_lock s = None then set_pc s t (Returned (Close_result None)) else s))
         \<and> (l_doneOnce s \<longrightarrow> l_doneOnce (run sched s))"
proof (intro conjI impI)
  assume a: "\<not> l_doneOnce s \<and> conns s = []"
  then have l: "l_lock s = None" using empty_registry_unlocked [OF assms(1)] by simp
  have e: "step (Run t ch) s = closeConn_return
             (s\<lparr>l_doneCh := True, threads := map wake_acceptor (threads s)\<rparr>) t"
    using assms(2,3) a l by (simp add: step_def thread_step_def Listener_Close_def)
  show "\<not> pConn_open (step (Run t ch) s)"
    "now (step (Run t ch) s) = now s"
    "threads (step (Run t ch) s) ! t = Returned (Close_result (pConn_Close_result s))"
    "l_doneCh (step (Run t ch) s)" "l_doneOnce (step (Run t ch) s)"
    "l_lock (step (Run t ch) s) = None"
    using assms(2) by (simp_all add: e closeConn_return_def pConn_Close_def)
next
  assume "l_doneOnce s"
  then show "step (Run t ch) s
                = (if l_lock s = None then set_pc s t (Returned (Close_result None)) else s)"
    using assms(2,3) by (simp add: step_def thread_step_def Listener_Close_def)
next
  assume "l_doneOnce s"
  then show "l_doneOnce (run sched s)" by (rule l_doneOnce_run)
qed

lemma run_append: "run (xs @ ys) s = run ys (run xs s)"
  by (induction xs arbitrary: s) simp_all

lemma run_close_first:
  "run close_first (new_Listener (Some (external_error 9)))
     = (new_Listener (Some (external_error 9)))\<lparr>threads := [Listener_Close_Lock 1000000000]\<rparr>"
  by (simp add: close_first_def step_defs new_Listener_def)

lemma run_close_again:
  "run close_again (new_Listener (Some (external_error 9)))
     = (new_Listener (Some (external_error 9)))
         \<lparr>pConn_open := False, l_doneCh := True, l_doneOnce := True,
          threads := [Listener_Close_Lock 1000000000]\<rparr>"
  by (simp add: close_again_def close_first_def step_defs new_Listener_def)

theorem Listener_Close_immediate_and_idempotent_witness:
  "inv (run close_first (new_Listener (Some (external_error 9))))
   \<and> threads (run close_first (new_Listener (Some (external_error 9)))) ! 0
       = Listener_Close_Lock 1000000000
   \<and> \<not> l_doneOnce (run close_first (new_Listener (Some (external_error 9))))
   \<and> conns (run close_first (new_Listener (Some (external_error 9)))) = []
   \<and> pConn_open (run close_first (new_Listener (Some (external_error 9))))
   \<and> \<not> pConn_open (step (Run 0 False) (run close_first (new_Listener (Some (external_error 9)))))
   \<and> now (step (Run 0 False) (run close_first (new_Listener (Some (external_error 9))))) = 0
   \<and> threads (step (Run 0 False) (run close_first (new_Listener (Some (external_error 9))))) ! 0
       = Returned (Close_result (Some (external_error 9)))
   \<and> inv (run close_again (new_Listener (Some (external_error 9))))
   \<and> l_doneOnce (run close_again (new_Listener (Some (external_error 9))))
   \<and> threads (step (Run 0 False) (run close_again (new_Listener (Some (external_error 9))))) ! 0
       = Returned (Close_result None)"
proof -
  let ?s0 = "new_Listener (Some (external_error 9))"
  let ?s = "run close_first ?s0" and ?s2 = "run close_again ?s0"
  have i: "inv ?s" "inv ?s2" by (simp_all add: inv_run inv_new_Listener)
  have f: "0 < length (threads ?s)" "threads ?s ! 0 = Listener_Close_Lock 1000000000"
    "\<not> l_doneOnce ?s" "conns ?s = []" "pConn_open ?s" "now ?s = 0"
    "pConn_Close_result ?s = Some (external_error 9)"
    by (simp_all add: run_close_first) (simp_all add: new_Listener_def)
  have g: "0 < length (threads ?s2)" "threads ?s2 ! 0 = Listener_Close_Lock 1000000000"
    "l_doneOnce ?s2" "l_lock ?s2 = None"
    by (simp_all add: run_close_again) (simp_all add: new_Listener_def)
  note first = Listener_Close_immediate_and_idempotent [OF i(1) f(1,2), of False "[]"]
  note again = Listener_Close_immediate_and_idempotent [OF i(2) g(1,2), of False "[]"]
  have "threads (step (Run 0 False) ?s2) ! 0 = Returned (Close_result None)"
    using again g by (simp add: set_pc_def)
  then show ?thesis using first i f g by simp
qed

subsection \<open>Connections only move towards closed\<close>

lemma conn_le_refl [simp]: "conn_le k k"
  by (simp add: conn_le_def)

lemma conn_le_trans: "conn_le a b \<Longrightarrow> conn_le b c \<Longrightarrow> conn_le a c"
  by (simp add: conn_le_def)

lemma nth_update_if: "c < length xs \<Longrightarrow> xs[i := v] ! c = (if i = c then v else xs ! c)"
  by (cases "i = c") auto

lemma heap_thread_step:
  "c < length (heap s) \<Longrightarrow>
   c < length (heap (thread_step s t ch)) \<and> conn_le (heap s ! c) (heap (thread_step s t ch) ! c)"
  by (cases "threads s ! t")
     (auto simp: thread_step_def set_pc_def Accept_def Listener_Close_def closeConn_def
        closeConn_return_def pConn_Close_def Conn_Read_def deliver_def Conn_Write_def
        Conn_Close_def Conn_Close_listener_def Let_def
        nth_update_if conn_le_def
        split: loop_pc.splits option.splits prod.splits)

lemma heap_readLoop_step:
  "c < length (heap s) \<Longrightarrow>
   c < length (heap (readLoop_step s ch)) \<and> conn_le (heap s ! c) (heap (readLoop_step s ch) ! c)"
  by (cases "readLoop s")
     (auto simp: readLoop_step_def readLoop_ReadFrom_def getConn_def readLoop_select_def
        deliver_def Let_def nth_append
        split: option.splits prod.splits list.splits)

lemma heap_step:
  "c < length (heap s) \<Longrightarrow>
   c < length (heap (step a s)) \<and> conn_le (heap s ! c) (heap (step a s) ! c)"
  by (cases a)
     (auto simp: step_def call_step_def set_pc_def heap_thread_step heap_readLoop_step
        WriteTo_return_frame)

lemma heap_run:
  "c < length (heap s) \<Longrightarrow>
   c < length (heap (run sched s)) \<and> conn_le (heap s ! c) (heap (run sched s) ! c)"
proof (induction sched arbitrary: s)
  case Nil
  then show ?case by simp
next
  case (Cons a sched)
  from heap_step [OF Cons.prems, of a]
  have 1: "c < length (heap (step a s))" and 2: "conn_le (heap s ! c) (heap (step a s) ! c)"
    by simp_all
  from Cons.IH [OF 1] show ?case using 2 by (auto intro: conn_le_trans)
qed

subsection \<open>\<open>Conn.Read\<close> after \<open>Conn.Close\<close>\<close>

lemma Conn_Close_closes:
  assumes "inv s" "t < length (threads s)" "threads s ! t = Conn_Close_Lock c"
  shows "c < length (heap (step (Run t ch) s)) \<and> c_doneCh (heap (step (Run t ch) s) ! c)"
proof -
  have c: "c < length (heap s)" using thread_conn_valid [OF assms(1,2)] assms(3) by simp
  have k: "conn_inv (heap s ! c)" by (rule heap_conn_inv [OF assms(1) c])
  have e: "step (Run t ch) s = Conn_Close s t c"
    using assms(2,3) by (simp add: step_def thread_step_def)
  show ?thesis
    using c k unfolding e by (auto simp: Conn_Close_def set_pc_def conn_inv_def)
qed

lemma Read_closed:
  assumes "inv s" "t < length (threads s)" "threads s ! t = Read_select c p"
    "c_doneCh (heap s ! c)"
  shows "step (Run t ch) s = set_pc s t (Returned (IO_result 0 (Some io_EOF) p))"
proof -
  have "readLoop s \<noteq> RL_parked c n" for n
    using inv_parts(5) [OF assms(1)] assms(4) by (auto simp: inv_parked_def)
  then have "(case readLoop s of RL_parked c' n \<Rightarrow> if c' = c then Some n else None
              | _ \<Rightarrow> None) = None"
    by (cases "readLoop s") auto
  then show ?thesis
    using assms(2,3,4) by (simp add: step_def thread_step_def Conn_Read_def)
qed

text \<open>
  C3. Once \<open>Close\<close> has been invoked on a connection (a goroutine at the \<open>Lock\<close> of
  \<open>Conn.Close\<close> has been run), then after any further run of the system (datagrams
  arriving, other calls) every \<open>Read\<close> then started on the connection returns
  \<open>0, io.EOF\<close>, whichever way its \<open>select\<close> is resolved, and the caller's buffer holds
  what it held before.
\<close>

theorem Read_after_Close_EOF:
  assumes "inv s" "t0 < length (threads s)" "threads s ! t0 = Conn_Close_Lock c"
    and "s' = run sched (step (Run t0 ch0) s)"
    and "t < length (threads s')" "threads s' ! t = Read_select c p"
  shows "threads (step (Run t ch) s') ! t = Returned (IO_result 0 (Some io_EOF) p)"
proof -
  let ?s1 = "step (Run t0 ch0) s"
  from Conn_Close_closes [OF assms(1-3), of ch0]
  have c: "c < length (heap ?s1)" and d: "c_doneCh (heap ?s1 ! c)" by simp_all
  from heap_run [OF c, of sched] d have d': "c_doneCh (heap s' ! c)"
    by (simp add: assms(4) conn_le_def)
  have i: "inv s'" by (simp add: assms(1,4) inv_step inv_run)
  show ?thesis
    using assms(5) by (simp add: Read_closed [OF i assms(5,6) d'] set_pc_def)
qed

lemma run_closing_peer:
  "run closing_peer accepting_Listener =
     one_peer_state\<lparr>readLoop := RL_parked 0 5,
        threads := [Returned (Accept_result (Inr 0)), Conn_Close_Lock 0]\<rparr>"
  unfolding closing_peer_def run_append one_peer_state_def [symmetric]
  by (simp add: one_peer_state_eq step_defs)

lemma run_read_after_close:
  "run read_after_close (step (Run 1 False) (run closing_peer accepting_Listener)) =
     one_peer_state\<lparr>l_lock := Some ReadLoop, readLoop := RL_acceptCh_send 1 5,
        conns := [(''10.0.0.1:5000'', 1)],
        heap := [\<lparr>listener = False, rAddr = ''10.0.0.1:5000'', c_lock = None,
                  c_doneCh = True, c_doneOnce = True\<rparr>,
                 \<lparr>listener = True, rAddr = ''10.0.0.1:5000'', c_lock = None,
                  c_doneCh = False, c_doneOnce = False\<rparr>],
        threads := [Read_select 0 [1, 2, 3], Returned (Close_result None)]\<rparr>"
  unfolding run_closing_peer read_after_close_def
  by (simp add: one_peer_state_eq step_defs hello_def receiveMTU_def)

theorem Read_after_Close_EOF_witness:
  "inv (run closing_peer accepting_Listener)
   \<and> threads (run closing_peer accepting_Listener) ! 1 = Conn_Close_Lock 0
   \<and> threads (run read_after_close (step (Run 1 False) (run closing_peer accepting_Listener))) ! 0
       = Read_select 0 [1, 2, 3]
   \<and> threads (step (Run 0 False)
        (run read_after_close (step (Run 1 False) (run closing_peer accepting_Listener)))) ! 0
       = Returned (IO_result 0 (Some io_EOF) [1, 2, 3])"
proof -
  let ?s = "run closing_peer accepting_Listener"
  let ?s' = "run read_after_close (step (Run 1 False) ?s)"
  have i: "inv ?s" by (simp add: inv_run inv_accepting_Listener)
  have a: "1 < length (threads ?s)" "threads ?s ! 1 = Conn_Close_Lock 0"
    by (simp_all add: run_closing_peer)
  have b: "0 < length (threads ?s')" "threads ?s' ! 0 = Read_select 0 [1, 2, 3]"
    using run_read_after_close by simp_all
  from Read_after_Close_EOF [OF i a refl b, of False] show ?thesis
    using i a b by simp
qed

subsection \<open>\<open>Conn.Close\<close>\<close>

lemma registry_entry_addr:
  "inv s \<Longrightarrow> e \<in> set (conns s) \<Longrightarrow> rAddr (heap s ! snd e) = fst e"
  unfolding inv_def inv_registry_def by blast

lemma once_unlocked:
  "inv s \<Longrightarrow> c < length (heap s) \<Longrightarrow> c_doneOnce (heap s ! c) \<Longrightarrow> c_lock (heap s ! c) = None"
  using heap_conn_inv [of s c] by (auto simp: conn_inv_def)

lemma locked_has_listener:
  "inv s \<Longrightarrow> c < length (heap s) \<Longrightarrow> c_lock (heap s ! c) = Some t
   \<Longrightarrow> listener (heap s ! c) \<and> c_doneCh (heap s ! c)"
  using heap_conn_inv [of s c] by (auto simp: conn_inv_def)

text \<open>
  C4. \<open>Conn.Close\<close> is idempotent. The first \<open>Close\<close> (the once not done, the lock
  free) closes \<open>doneCh\<close> and goes on, holding \<open>c.lock\<close>, to the listener's lock; with
  that lock free it deletes the entry of the connection's address from the registry, after
  which the registry no longer refers to the connection, clears \<open>c.listener\<close>, marks
  the once done and returns \<open>nil\<close>. Every \<open>Close\<close> run once the once is done returns
  \<open>nil\<close> and changes nothing else in the state: no channel is closed again, nothing is
  deleted from the registry. The once is never undone.
\<close>

theorem Conn_Close_idempotent:
  assumes "inv s" "t < length (threads s)"
  shows "(threads s ! t = Conn_Close_Lock c \<and> \<not> c_doneOnce (heap s ! c)
            \<and> c_lock (heap s ! c) = None \<longrightarrow>
            c_doneCh (heap (step (Run t ch) s) ! c)
            \<and> threads (step (Run t ch) s) ! t = Conn_Close_listener_Lock c
            \<and> conns (step (Run t ch) s) = conns s
            \<and> listener (heap (step (Run t ch) s) ! c))
         \<and> (threads s ! t = Conn_Close_listener_Lock c \<and> l_lock s = None \<longrightarrow>
            conns (step (Run t ch) s) = delete_key (rAddr (heap s ! c)) (conns s)
            \<and> c \<notin> snd ` set (conns (step (Run t ch) s))
            \<and> \<not> listener (heap (step (Run t ch) s) ! c)
            \<and> c_doneOnce (heap (step (Run t ch) s) ! c)
            \<and> c_doneCh (heap (step (Run t ch) s) ! c)
            \<and> threads (step (Run t ch) s) ! t = Returned (Close_result None))
         \<and> (threads s ! t = Conn_Close_Lock c \<and> c_doneOnce (heap s ! c) \<longrightarrow>
            step (Run t ch) s = set_pc s t (Returned (Close_result None)))
         \<and> (c < length (heap s) \<and> c_doneOnce (heap s ! c) \<longrightarrow>
            c_doneOnce (heap (run sched s) ! c))"
proof (intro conjI impI)
  assume a: "threads s ! t = Conn_Close_Lock c \<and> \<not> c_doneOnce (heap s ! c)
            \<and> c_lock (heap s ! c) = None"
  then have c: "c < length (heap s)" using thread_conn_valid [OF assms] by simp
  have k: "conn_inv (heap s ! c)" by (rule heap_conn_inv [OF assms(1) c])
  have e: "step (Run t ch) s = Conn_Close s t c"
    using assms(2) a by (simp add: step_def thread_step_def)
  show "c_doneCh (heap (step (Run t ch) s) ! c)"
    "threads (step (Run t ch) s) ! t = Conn_Close_listener_Lock c"
    "conns (step (Run t ch) s) = conns s"
    "listener (heap (step (Run t ch) s) ! c)"
    using a c k assms(2) unfolding e by (simp_all add: Conn_Close_def conn_inv_def)
next
  assume a: "threads s ! t = Conn_Close_listener_Lock c \<and> l_lock s = None"
  then have c: "c < length (heap s)" using thread_conn_valid [OF assms] by simp
  have l: "c_lock (heap s ! c) = Some t"
    using Conn_Close_listener_Lock_holds_lock [OF assms] a by simp
  note h = locked_has_listener [OF assms(1) c l]
  have e: "step (Run t ch) s = Conn_Close_listener s t c"
    using assms(2) a by (simp add: step_def thread_step_def)
  show "conns (step (Run t ch) s) = delete_key (rAddr (heap s ! c)) (conns s)"
    "\<not> listener (heap (step (Run t ch) s) ! c)"
    "c_doneOnce (heap (step (Run t ch) s) ! c)"
    "c_doneCh (heap (step (Run t ch) s) ! c)"
    "threads (step (Run t ch) s) ! t = Returned (Close_result None)"
    using a c h assms(2) unfolding e by (simp_all add: Conn_Close_listener_def)
  show "c \<notin> snd ` set (conns (step (Run t ch) s))"
  proof
    assume "c \<in> snd ` set (conns (step (Run t ch) s))"
    then obtain x where x: "x \<in> set (conns s)" "fst x \<noteq> rAddr (heap s ! c)" "snd x = c"
      using a h unfolding e by (auto simp: Conn_Close_listener_def delete_key_def)
    from registry_entry_addr [OF assms(1) x(1)] x(2,3) show False by simp
  qed
next
  assume a: "threads s ! t = Conn_Close_Lock c \<and> c_doneOnce (heap s ! c)"
  then have c: "c < length (heap s)" using thread_conn_valid [OF assms] by simp
  from once_unlocked [OF assms(1) c] a
  show "step (Run t ch) s = set_pc s t (Returned (Close_result None))"
    using assms(2) by (simp add: step_def thread_step_def Conn_Close_def)
next
  assume "c < length (heap s) \<and> c_doneOnce (heap s ! c)"
  then show "c_doneOnce (heap (run sched s) ! c)"
    using heap_run [of c s sched] by (simp add: conn_le_def)
qed

lemma run_close_peer_again:
  "run close_peer_again (run closing_peer accepting_Listener) =
     one_peer_state\<lparr>readLoop := RL_ReadFrom, conns := [],
        heap := [\<lparr>listener = False, rAddr = ''10.0.0.1:5000'', c_lock = None,
                  c_doneCh = True, c_doneOnce = True\<rparr>],
        threads := [Conn_Close_Lock 0, Returned (Close_result None)]\<rparr>"
  unfolding run_closing_peer close_peer_again_def
  by (simp add: one_peer_state_eq step_defs)

lemma step_closing_peer:
  "step (Run 1 False) (run closing_peer accepting_Listener) =
     one_peer_state\<lparr>readLoop := RL_ReadFrom,
        heap := [\<lparr>listener = True, rAddr = ''10.0.0.1:5000'', c_lock = Some 1,
                  c_doneCh = True, c_doneOnce = False\<rparr>],
        threads := [Returned (Accept_result (Inr 0)), Conn_Close_listener_Lock 0]\<rparr>"
  unfolding run_closing_peer
  by (simp add: one_peer_state_eq step_defs)

theorem Conn_Close_idempotent_witness:
  "inv (run closing_peer accepting_Listener)
   \<and> threads (run closing_peer accepting_Listener) ! 1 = Conn_Close_Lock 0
   \<and> conns (run closing_peer accepting_Listener) = [(''10.0.0.1:5000'', 0)]
   \<and> \<not> c_doneCh (heap (run closing_peer accepting_Listener) ! 0)
   \<and> c_doneCh (heap (step (Run 1 False) (run closing_peer accepting_Listener)) ! 0)
   \<and> threads (step (Run 1 False) (run closing_peer accepting_Listener)) ! 1
       = Conn_Close_listener_Lock 0
   \<and> conns (step (Run 1 False) (step (Run 1 False) (run closing_peer accepting_Listener))) = []
   \<and> \<not> listener (heap (step (Run 1 False)
          (step (Run 1 False) (run closing_peer accepting_Listener))) ! 0)
   \<and> threads (step (Run 1 False) (step (Run 1 False) (run closing_peer accepting_Listener))) ! 1
       = Returned (Close_result None)
   \<and> threads (run close_peer_again (run closing_peer accepting_Listener)) ! 0 = Conn_Close_Lock 0
   \<and> c_doneOnce (heap (run close_peer_again (run closing_peer accepting_Listener)) ! 0)
   \<and> step (Run 0 False) (run close_peer_again (run closing_peer accepting_Listener))
       = set_pc (run close_peer_again (run closing_peer accepting_Listener)) 0
           (Returned (Close_result None))"
proof -
  let ?s = "run closing_peer accepting_Listener"
  let ?s1 = "step (Run 1 False) ?s"
  let ?s3 = "run close_peer_again ?s"
  have i: "inv ?s" "inv ?s1" "inv ?s3"
    by (simp_all add: inv_run inv_step inv_accepting_Listener)
  have a: "1 < length (threads ?s)" "threads ?s ! 1 = Conn_Close_Lock 0"
    "\<not> c_doneOnce (heap ?s ! 0)" "c_lock (heap ?s ! 0) = None"
    "conns ?s = [(''10.0.0.1:5000'', 0)]" "\<not> c_doneCh (heap ?s ! 0)"
    by (simp_all add: run_closing_peer one_peer_state_eq)
  have b: "1 < length (threads ?s1)" "threads ?s1 ! 1 = Conn_Close_listener_Lock 0"
    "l_lock ?s1 = None" "rAddr (heap ?s1 ! 0) = ''10.0.0.1:5000''"
    "conns ?s1 = [(''10.0.0.1:5000'', 0)]"
    using step_closing_peer by (simp_all add: one_peer_state_eq)
  have c: "0 < length (threads ?s3)" "threads ?s3 ! 0 = Conn_Close_Lock 0"
    "c_doneOnce (heap ?s3 ! 0)"
    using run_close_peer_again by (simp_all add: one_peer_state_eq)
  note first = Conn_Close_idempotent [OF i(1) a(1), of 0 False "[]"]
  note second = Conn_Close_idempotent [OF i(2) b(1), of 0 False "[]"]
  note again = Conn_Close_idempotent [OF i(3) c(1), of 0 False "[]"]
  show ?thesis
    using first second again i a b c by (simp add: delete_key_def)
qed

subsection \<open>\<open>Conn.Write\<close>\<close>

lemma no_listener_unlocked:
  "inv s \<Longrightarrow> c < length (heap s) \<Longrightarrow> \<not> listener (heap s ! c) \<Longrightarrow> c_lock (heap s ! c) = None"
  using heap_conn_inv [of s c] by (auto simp: conn_inv_def)

lemma no_listener_iff_once:
  "inv s \<Longrightarrow> c < length (heap s) \<Longrightarrow> \<not> listener (heap s ! c) \<longleftrightarrow> c_doneOnce (heap s ! c)"
  using heap_conn_inv [of s c] by (auto simp: conn_inv_def)

text \<open>
  C5. \<open>Write\<close> on a connection whose back-reference \<open>c.listener\<close> has been cleared by
  \<open>Close\<close> returns \<open>0, io.EOF\<close> and sends nothing, and the reference, once cleared,
  stays cleared. On a connection that has not been closed (the reference set, \<open>c.lock\<close>
  free) \<open>Write\<close> goes on to \<open>l.pConn.WriteTo(p, c.rAddr)\<close>: the buffer \<open>p\<close> is
  handed to the shared socket for the connection's remote address, and \<open>Write\<close> returns
  what the socket answers, whatever that is: when the answer carries no error the
  datagram \<open>p\<close> has left for \<open>rAddr\<close>; when it carries one (or the socket is closed)
  nothing has been sent. While it waits for the answer the goroutine takes no other step.
  None of these steps reads or changes the state of \<open>readLoop\<close>, the datagrams waiting
  in the socket or \<open>buf\<close>.
\<close>

theorem Conn_Write_EOF_after_Close_else_WriteTo:
  assumes "inv s" "t < length (threads s)"
  shows "(threads s ! t = Write_Lock c p \<and> \<not> listener (heap s ! c) \<longrightarrow>
            step (Run t ch) s = set_pc s t (Returned (IO_result 0 (Some io_EOF) p)))
         \<and> (threads s ! t = Write_Lock c p \<and> listener (heap s ! c)
              \<and> c_lock (heap s ! c) = None \<longrightarrow>
            step (Run t ch) s = set_pc s t (Write_WriteTo c p))
         \<and> (threads s ! t = Write_WriteTo c p \<longrightarrow>
            step (Run t ch) s = s
            \<and> step (WriteTo_answer t n err) s =
              (if \<not> pConn_open s
               then set_pc s t (Returned (IO_result 0 (Some net_ErrClosed) p))
               else if err = None
               then set_pc (s\<lparr>pConn_sent := pConn_sent s @ [(p, rAddr (heap s ! c))]\<rparr>) t
                      (Returned (IO_result n None p))
               else set_pc s t (Returned (IO_result n err p)))
            \<and> readLoop (step (WriteTo_answer t n err) s) = readLoop s
            \<and> pConn_inbox (step (WriteTo_answer t n err) s) = pConn_inbox s
            \<and> buf (step (WriteTo_answer t n err) s) = buf s)
         \<and> (c < length (heap s) \<and> \<not> listener (heap s ! c) \<longrightarrow>
            \<not> listener (heap (run sched s) ! c))"
proof (intro conjI impI)
  assume a: "threads s ! t = Write_Lock c p \<and> \<not> listener (heap s ! c)"
  then have c: "c < length (heap s)" using thread_conn_valid [OF assms] by simp
  from no_listener_unlocked [OF assms(1) c] a
  show "step (Run t ch) s = set_pc s t (Returned (IO_result 0 (Some io_EOF) p))"
    using assms(2) by (simp add: step_def thread_step_def Conn_Write_def)
next
  assume "threads s ! t = Write_Lock c p \<and> listener (heap s ! c) \<and> c_lock (heap s ! c) = None"
  then show "step (Run t ch) s = set_pc s t (Write_WriteTo c p)"
    using assms(2) by (simp add: step_def thread_step_def Conn_Write_def)
next
  assume a: "threads s ! t = Write_WriteTo c p"
  then show "step (Run t ch) s = s"
    using assms(2) by (simp add: step_def thread_step_def)
  show "step (WriteTo_answer t n err) s =
              (if \<not> pConn_open s
               then set_pc s t (Returned (IO_result 0 (Some net_ErrClosed) p))
               else if err = None
               then set_pc (s\<lparr>pConn_sent := pConn_sent s @ [(p, rAddr (heap s ! c))]\<rparr>) t
                      (Returned (IO_result n None p))
               else set_pc s t (Returned (IO_result n err p)))"
    using assms(2) a
    by (auto simp: step_def WriteTo_return_def Conn_Write_WriteTo_def pConn_WriteTo_def)
  show "readLoop (step (WriteTo_answer t n err) s) = readLoop s"
    "pConn_inbox (step (WriteTo_answer t n err) s) = pConn_inbox s"
    "buf (step (WriteTo_answer t n err) s) = buf s"
    by (simp_all add: step_def WriteTo_return_frame)
next
  assume a: "c < length (heap s) \<and> \<not> listener (heap s ! c)"
  then have o: "c_doneOnce (heap s ! c)" using no_listener_iff_once [OF assms(1)] by blast
  from heap_run [of c s sched] a o
  have "c < length (heap (run sched s))" "c_doneOnce (heap (run sched s) ! c)"
    by (simp_all add: conn_le_def)
  then show "\<not> listener (heap (run sched s) ! c)"
    using no_listener_iff_once [OF inv_run [OF assms(1), of sched]] by blast
qed

lemma run_writing_peer:
  "run writing_peer accepting_Listener =
     one_peer_state\<lparr>threads := [Returned (Accept_result (Inr 0)), Write_Lock 0 world]\<rparr>"
  unfolding writing_peer_def run_append one_peer_state_def [symmetric]
  by (simp add: one_peer_state_eq step_defs)

lemma run_writing_too_much:
  "run writing_too_much accepting_Listener =
     one_peer_state\<lparr>threads := [Returned (Accept_result (Inr 0)),
                                 Write_WriteTo 0 (replicate 65508 0)]\<rparr>"
  unfolding writing_too_much_def run_append one_peer_state_def [symmetric]
  by (simp add: one_peer_state_eq step_defs)

lemma run_write_after_close:
  "run write_after_close accepting_Listener =
     one_peer_state\<lparr>readLoop := RL_ReadFrom, conns := [],
        heap := [\<lparr>listener = False, rAddr = ''10.0.0.1:5000'', c_lock = None,
                  c_doneCh = True, c_doneOnce = True\<rparr>],
        threads := [Conn_Close_Lock 0, Write_Lock 0 world]\<rparr>"
  unfolding write_after_close_def run_append run_close_peer_again
  by (simp add: one_peer_state_eq step_defs)

theorem Conn_Write_EOF_after_Close_else_WriteTo_witness:
  "inv (run writing_peer accepting_Listener)
   \<and> threads (run writing_peer accepting_Listener) ! 1 = Write_Lock 0 world
   \<and> listener (heap (run writing_peer accepting_Listener) ! 0)
   \<and> threads (step (Run 1 False) (run writing_peer accepting_Listener)) ! 1
       = Write_WriteTo 0 world
   \<and> pConn_sent (step (WriteTo_answer 1 5 None)
        (step (Run 1 False) (run writing_peer accepting_Listener)))
       = [(world, ''10.0.0.1:5000'')]
   \<and> threads (step (WriteTo_answer 1 5 None)
        (step (Run 1 False) (run writing_peer accepting_Listener))) ! 1
       = Returned (IO_result 5 None world)
   \<and> inv (run writing_too_much accepting_Listener)
   \<and> threads (run writing_too_much accepting_Listener) ! 1
       = Write_WriteTo 0 (replicate 65508 0)
   \<and> threads (step (WriteTo_answer 1 0 (Some message_too_long))
        (run writing_too_much accepting_Listener)) ! 1
       = Returned (IO_result 0 (Some message_too_long) (replicate 65508 0))
   \<and> pConn_sent (step (WriteTo_answer 1 0 (Some message_too_long))
        (run writing_too_much accepting_Listener)) = []
   \<and> inv (run write_after_close accepting_Listener)
   \<and> threads (run write_after_close accepting_Listener) ! 1 = Write_Lock 0 world
   \<and> \<not> listener (heap (run write_after_close accepting_Listener) ! 0)
   \<and> threads (step (Run 1 False) (run write_after_close accepting_Listener)) ! 1
       = Returned (IO_result 0 (Some io_EOF) world)
   \<and> pConn_sent (step (Run 1 False) (run write_after_close accepting_Listener)) = []"
proof -
  let ?s = "run writing_peer accepting_Listener"
  let ?s1 = "step (Run 1 False) ?s"
  let ?s2 = "run writing_too_much accepting_Listener"
  let ?s3 = "run write_after_close accepting_Listener"
  have i: "inv ?s" "inv ?s1" "inv ?s2" "inv ?s3"
    by (simp_all add: inv_run inv_step inv_accepting_Listener)
  have a: "1 < length (threads ?s)" "threads ?s ! 1 = Write_Lock 0 world"
    "listener (heap ?s ! 0)" "c_lock (heap ?s ! 0) = None"
    by (simp_all add: run_writing_peer one_peer_state_eq)
  note first = Conn_Write_EOF_after_Close_else_WriteTo
    [OF i(1) a(1), of 0 world False 0 None "[]"]
  have s1: "?s1 = set_pc ?s 1 (Write_WriteTo 0 world)" using first a by simp
  have b: "1 < length (threads ?s1)" "threads ?s1 ! 1 = Write_WriteTo 0 world"
    "pConn_open ?s1" "pConn_sent ?s1 = []" "rAddr (heap ?s1 ! 0) = ''10.0.0.1:5000''"
    unfolding s1 by (simp_all add: set_pc_def run_writing_peer one_peer_state_eq)
  note second = Conn_Write_EOF_after_Close_else_WriteTo
    [OF i(2) b(1), of 0 world False 5 None "[]"]
  have m: "1 < length (threads ?s2)" "threads ?s2 ! 1 = Write_WriteTo 0 (replicate 65508 0)"
    "pConn_open ?s2" "pConn_sent ?s2 = []"
    by (simp_all add: run_writing_too_much one_peer_state_eq)
  note toolong = Conn_Write_EOF_after_Close_else_WriteTo
    [OF i(3) m(1), of 0 "replicate 65508 0" False 0 "Some message_too_long" "[]"]
  have c: "1 < length (threads ?s3)" "threads ?s3 ! 1 = Write_Lock 0 world"
    "\<not> listener (heap ?s3 ! 0)" "pConn_sent ?s3 = []"
    by (simp_all add: run_write_after_close one_peer_state_eq)
  note closed = Conn_Write_EOF_after_Close_else_WriteTo
    [OF i(4) c(1), of 0 world False 0 None "[]"]
  have "pConn_sent (step (WriteTo_answer 1 5 None) ?s1) = [(world, ''10.0.0.1:5000'')]"
    "threads (step (WriteTo_answer 1 5 None) ?s1) ! 1 = Returned (IO_result 5 None world)"
    using second b by (simp_all add: set_pc_def)
  moreover have
    "threads (step (WriteTo_answer 1 0 (Some message_too_long)) ?s2) ! 1
       = Returned (IO_result 0 (Some message_too_long) (replicate 65508 0))"
    "pConn_sent (step (WriteTo_answer 1 0 (Some message_too_long)) ?s2) = []"
    using toolong m by (simp_all add: set_pc_def)
  moreover have "threads (step (Run 1 False) ?s3) ! 1 = Returned (IO_result 0 (Some io_EOF) world)"
    "pConn_sent (step (Run 1 False) ?s3) = []"
    using closed c by (simp_all add: set_pc_def)
  ultimately show ?thesis using i a b m c by simp
qed

subsection \<open>The byte count of \<open>Conn.Read\<close>\<close>

lemma deliver_result:
  assumes "length (buf s) = receiveMTU" "n0 \<le> receiveMTU" "t < length (threads s)"
    "threads (deliver s t p n0) ! t = Returned (IO_result n None p')"
  shows "n = min (length p) n0 \<and> p' = take n (buf s) @ drop n p"
  using assms by (auto simp: deliver_def go_copy_def Let_def min_def)

lemma deliver_other:
  "t \<noteq> t' \<Longrightarrow> threads (deliver s t' p n0) ! t = threads s ! t"
  by (simp add: deliver_def split: prod.splits)

lemma reader_not_woken:
  assumes "q = Read_select c p \<or> q = Read_parked c p"
  shows "wake_acceptor q = q" "wake_reader c' q \<noteq> Returned (IO_result n None p')"
  using assms by (auto split: if_splits)

lemma thread_step_other_reader:
  assumes "t \<noteq> t'" "t < length (threads s)"
    "threads s ! t = Read_select c p \<or> threads s ! t = Read_parked c p"
  shows "threads (thread_step s t' ch) ! t \<noteq> Returned (IO_result n None p')"
proof -
  note r = reader_not_woken [OF assms(3)]
  show ?thesis
    using assms r
    by (cases "threads s ! t'")
       (auto simp: thread_step_def set_pc_def Accept_def Listener_Close_def closeConn_def
          closeConn_return_def pConn_Close_def Conn_Read_def deliver_def Conn_Write_def
          Conn_Close_def Conn_Close_listener_def
          Let_def split: loop_pc.splits option.splits prod.splits)
qed

lemma buf_length: "inv s \<Longrightarrow> length (buf s) = receiveMTU"
  unfolding inv_def inv_buf_def by blast

lemma thread_step_reader:
  assumes "inv s" "t < length (threads s)"
    "threads s ! t = Read_select c p \<or> threads s ! t = Read_parked c p"
    "threads (thread_step s t ch) ! t = Returned (IO_result n None p')"
  shows "n = min (length p) (loop_n (readLoop s)) \<and> p' = take n (buf s) @ drop n p"
proof -
  from assms(3) show ?thesis
  proof
    assume r: "threads s ! t = Read_select c p"
    then have e: "thread_step s t ch = Conn_Read s t c p ch" by (simp add: thread_step_def)
    obtain n0 where l: "readLoop s = RL_parked c n0"
                and d: "thread_step s t ch = deliver s t p n0"
      using assms(2,4) unfolding e
      by (auto simp: Conn_Read_def set_pc_def Let_def split: loop_pc.splits if_splits)
    have "n0 \<le> receiveMTU" using loop_n_bound [OF assms(1)] l by simp
    from deliver_result [OF buf_length [OF assms(1)] this assms(2)] assms(4) d l
    show ?thesis by simp
  next
    assume "threads s ! t = Read_parked c p"
    then have "thread_step s t ch = s" by (simp add: thread_step_def)
    then show ?thesis using assms(4) \<open>threads s ! t = Read_parked c p\<close> by simp
  qed
qed

lemma readLoop_step_reader:
  assumes "inv s" "t < length (threads s)"
    "threads s ! t = Read_select c p \<or> threads s ! t = Read_parked c p"
    "threads (readLoop_step s ch) ! t = Returned (IO_result n None p')"
  shows "n = min (length p) (loop_n (readLoop s)) \<and> p' = take n (buf s) @ drop n p"
proof (cases "readLoop s")
  case RL_ReadFrom
  then have "threads (readLoop_step s ch) = threads s"
    by (auto simp: readLoop_step_def readLoop_ReadFrom_def split: list.splits prod.splits)
  then show ?thesis using assms(3,4) by auto
next
  case (RL_getConn raddr n0)
  have "threads (getConn s raddr n0) ! t \<noteq> Returned (IO_result n None p')"
    using assms(2,3)
    by (auto simp: getConn_def Let_def nth_update_if split: option.splits)
  then show ?thesis using assms(4) RL_getConn by (simp add: readLoop_step_def)
next
  case (RL_select c' n0)
  have n0: "n0 \<le> receiveMTU" using loop_n_bound [OF assms(1)] RL_select by simp
  show ?thesis
  proof (cases "first_index (parked_reader c') (threads s)")
    case None
    then have "threads (readLoop_step s ch) = threads s"
      using RL_select by (simp add: readLoop_step_def readLoop_select_def Let_def)
    then show ?thesis using assms(3,4) by auto
  next
    case (Some t')
    from first_index_Some [OF Some] obtain p'' where
      t': "t' < length (threads s)" "threads s ! t' = Read_parked c' p''"
      by (auto simp: parked_reader_iff)
    have e: "readLoop_step s ch =
               (if c_doneCh (heap s ! c') \<and> ch then s\<lparr>readLoop := RL_ReadFrom\<rparr>
                else deliver s t' p'' n0)"
      using RL_select Some t' by (simp add: readLoop_step_def readLoop_select_def Let_def)
    consider (gone) "threads (readLoop_step s ch) = threads s"
      | (handed) "readLoop_step s ch = deliver s t' p'' n0"
      unfolding e by (cases "c_doneCh (heap s ! c') \<and> ch") simp_all
    then show ?thesis
    proof cases
      case gone
      then show ?thesis using assms(3,4) by auto
    next
      case handed
      show ?thesis
      proof (cases "t' = t")
        case True
        then have "p'' = p" using t'(2) assms(3) by auto
        with deliver_result [OF buf_length [OF assms(1)] n0 assms(2), of p n p']
        show ?thesis using assms(4) handed True RL_select by simp
      next
        case False
        then have "threads (readLoop_step s ch) ! t = threads s ! t"
          using handed deliver_other [of t t'] by simp
        then show ?thesis using assms(3,4) by auto
      qed
    qed
  qed
qed (use assms(3,4) in \<open>auto simp: readLoop_step_def\<close>)

text \<open>
  C10. A \<open>Read\<close> that is under way (in its \<open>select\<close>, or parked in it) and returns
  without error at some step returns a count \<open>n\<close> of at most the length of the caller's
  buffer and at most \<open>receiveMTU\<close> = 8192: \<open>n\<close> is the smaller of the buffer's length and
  the number of bytes \<open>readLoop\<close> holds, and the buffer then carries the first \<open>n\<close> bytes of
  \<open>buf\<close> followed by what it held before. \<open>readLoop\<close> reads each datagram into the
  8192-byte \<open>buf\<close>: it takes the datagram off the socket, keeps its first
  \<open>min 8192 (len payload)\<close> bytes and goes on with that count, so the bytes beyond 8192,
  like those beyond the caller's buffer, are kept nowhere.
\<close>

theorem Read_count_bounded:
  assumes "inv s" "t < length (threads s)"
    "threads s ! t = Read_select c p \<or> threads s ! t = Read_parked c p"
  shows "(threads (step a s) ! t = Returned (IO_result n None p') \<longrightarrow>
            n \<le> min (length p) receiveMTU
            \<and> n = min (length p) (loop_n (readLoop s))
            \<and> p' = take n (buf s) @ drop n p)
         \<and> (readLoop s = RL_ReadFrom \<and> pConn_open s \<and> pConn_inbox s = (raddr, payload) # rest
              \<longrightarrow>
            readLoop (step (Loop ch) s) = RL_getConn raddr (min receiveMTU (length payload))
            \<and> take (min receiveMTU (length payload)) (buf (step (Loop ch) s))
                = take receiveMTU payload
            \<and> length (buf (step (Loop ch) s)) = receiveMTU
            \<and> pConn_inbox (step (Loop ch) s) = rest)"
proof (intro conjI impI)
  assume r: "threads (step a s) ! t = Returned (IO_result n None p')"
  have *: "n = min (length p) (loop_n (readLoop s)) \<and> p' = take n (buf s) @ drop n p"
  proof (cases a)
    case Spawn
    then show ?thesis using r assms(2,3) by (auto simp: step_def nth_append)
  next
    case (Call t' k)
    then show ?thesis
      using r assms(2,3)
      by (cases "t' = t") (auto simp: step_def call_step_def set_pc_def split: if_splits)
  next
    case (Run t' ch')
    show ?thesis
    proof (cases "t' < length (threads s)")
      case False
      then show ?thesis using r assms(3) Run by (auto simp: step_def)
    next
      case True
      then have e: "step a s = thread_step s t' ch'" using Run by (simp add: step_def)
      show ?thesis
      proof (cases "t' = t")
        case True
        then show ?thesis using thread_step_reader [OF assms, of ch' n p'] r e by simp
      next
        case False
        then show ?thesis
          using thread_step_other_reader [OF _ assms(2,3), of t' ch' n p'] r e by auto
      qed
    qed
  next
    case (Loop ch')
    then show ?thesis using readLoop_step_reader [OF assms, of ch' n p'] r by (simp add: step_def)
  next
    case (Datagram raddr' payload')
    then show ?thesis using r assms(3) by (auto simp: step_def split: if_splits)
  next
    case (WriteTo_answer t' k err)
    have "threads s ! t \<noteq> Write_WriteTo c' q" for c' q using assms(3) by auto
    then have "threads (step a s) ! t = threads s ! t"
      using WriteTo_answer WriteTo_return_not_writing [of s t "(k, err)"]
        WriteTo_return_other [of t t' s "(k, err)"]
      by (cases "t' = t") (auto simp: step_def)
    then show ?thesis using r assms(3) by auto
  next
    case (Tick d)
    then show ?thesis using r assms(3) by (auto simp: step_def)
  qed
  then show "n = min (length p) (loop_n (readLoop s))" "p' = take n (buf s) @ drop n p"
    by simp_all
  show "n \<le> min (length p) receiveMTU"
    using * loop_n_bound [OF assms(1)] by simp
next
  assume a: "readLoop s = RL_ReadFrom \<and> pConn_open s \<and> pConn_inbox s = (raddr, payload) # rest"
  have b: "length (buf s) = receiveMTU" by (rule buf_length [OF assms(1)])
  have e: "step (Loop ch) s =
             s\<lparr>pConn_inbox := rest, buf := snd (go_copy (buf s) payload),
               readLoop := RL_getConn raddr (fst (go_copy (buf s) payload))\<rparr>"
    using a by (simp add: step_def readLoop_step_def readLoop_ReadFrom_def split: prod.splits)
  show "readLoop (step (Loop ch) s) = RL_getConn raddr (min receiveMTU (length payload))"
    "take (min receiveMTU (length payload)) (buf (step (Loop ch) s)) = take receiveMTU payload"
    "length (buf (step (Loop ch) s)) = receiveMTU"
    "pConn_inbox (step (Loop ch) s) = rest"
    unfolding e using b by (simp_all add: go_copy_def Let_def min_def)
qed

lemma run_reading_peer:
  "run reading_peer accepting_Listener =
     one_peer_state\<lparr>threads := [Returned (Accept_result (Inr 0)), Read_parked 0 [0, 0, 0]]\<rparr>"
  unfolding reading_peer_def run_append one_peer_state_def [symmetric]
  by (simp add: one_peer_state_eq step_defs)

lemma run_big_datagram:
  "run big_datagram accepting_Listener =
     one_peer_state\<lparr>readLoop := RL_ReadFrom,
        pConn_inbox := [(''10.0.0.1:5000'', replicate 9000 7)],
        threads := [Returned (Accept_result (Inr 0)), Read_select 0 [0, 0, 0]]\<rparr>"
  unfolding big_datagram_def run_append run_reading_peer
  by (simp add: one_peer_state_eq step_defs hello_def)

theorem Read_count_bounded_witness:
  "inv (run reading_peer accepting_Listener)
   \<and> threads (run reading_peer accepting_Listener) ! 1 = Read_parked 0 [0, 0, 0]
   \<and> take 5 (buf (run reading_peer accepting_Listener)) = hello
   \<and> threads (step (Loop False) (run reading_peer accepting_Listener)) ! 1
       = Returned (IO_result 3 None [104, 101, 108])
   \<and> (3 :: nat) \<le> min (length [0, 0, 0 :: byte]) receiveMTU
   \<and> inv (run big_datagram accepting_Listener)
   \<and> threads (run big_datagram accepting_Listener) ! 1 = Read_select 0 [0, 0, 0]
   \<and> readLoop (run big_datagram accepting_Listener) = RL_ReadFrom
   \<and> pConn_inbox (run big_datagram accepting_Listener)
       = [(''10.0.0.1:5000'', replicate 9000 7)]
   \<and> readLoop (step (Loop False) (run big_datagram accepting_Listener))
       = RL_getConn ''10.0.0.1:5000'' 8192
   \<and> pConn_inbox (step (Loop False) (run big_datagram accepting_Listener)) = []"
proof -
  let ?s = "run reading_peer accepting_Listener"
  let ?s2 = "run big_datagram accepting_Listener"
  have i: "inv ?s" "inv ?s2" by (simp_all add: inv_run inv_accepting_Listener)
  have a: "1 < length (threads ?s)" "threads ?s ! 1 = Read_parked 0 [0, 0, 0]"
    "take 5 (buf ?s) = hello"
    by (simp_all add: run_reading_peer one_peer_state_eq hello_def)
  have r: "threads (step (Loop False) ?s) ! 1 = Returned (IO_result 3 None [104, 101, 108])"
    unfolding run_reading_peer by (simp add: one_peer_state_eq step_defs hello_def)
  have b: "1 < length (threads ?s2)" "threads ?s2 ! 1 = Read_select 0 [0, 0, 0]"
    "readLoop ?s2 = RL_ReadFrom" "pConn_open ?s2"
    "pConn_inbox ?s2 = [(''10.0.0.1:5000'', replicate 9000 7)]"
    by (simp_all add: run_big_datagram one_peer_state_eq)
  note small = Read_count_bounded [OF i(1) a(1) disjI2 [OF a(2)],
      of "Loop False" 3 "[104, 101, 108]" "''10.0.0.1:5000''" "[]" "[]" False]
  note big = Read_count_bounded [OF i(2) b(1) disjI1 [OF b(2)],
      of "Loop False" 0 "[]" "''10.0.0.1:5000''" "replicate 9000 7" "[]" False]
  have "readLoop (step (Loop False) ?s2) = RL_getConn ''10.0.0.1:5000'' 8192"
    "pConn_inbox (step (Loop False) ?s2) = []"
    using big b by (simp_all add: receiveMTU_def)
  moreover have "(3 :: nat) \<le> min (length [0, 0, 0 :: byte]) receiveMTU"
    using small r by simp
  ultimately show ?thesis using i a b r by simp
qed

subsection \<open>The grace period of \<open>Listener.Close\<close>\<close>















end
